theory Spec2Isabelle
  imports
    Complex_Main
    "HOL-Library.FSet"
    "HOL-Library.Multiset"
    "HOL-Library.Char_ord"
    "HOL-Library.List_Lexorder"
begin

section \<open>Data model (types.ts)\<close>

text \<open>
  A JavaScript string is modelled as a \<open>string\<close> (a list of characters), and a
  one-character string (\<open>pattern[i]\<close>, a drawn digit) as a \<open>char\<close>. A \<open>Set<string>\<close> is a
  finite set of strings, read only through \<open>has\<close> and \<open>size\<close>. The field \<open>id\<close> is written
  \<open>id'\<close>, since \<open>id\<close> is the identity function of HOL.
\<close>

record GeneratedContact =
  id' :: string
  number :: string
  name :: string
  isSaved :: "bool option"

record GenerationConfig =
  pattern :: string
  count :: int
  contactNamePrefix :: string

record GenerationOptions =
  repetitionDensity :: real

section \<open>validatePattern\<close>

text \<open>
  The source returns a message text or \<open>null\<close>. The four messages are modelled by the
  four constructors below, each carrying the value the source interpolates into the text: the
  length of the pattern, and the list \<open>uniqueInvalid\<close> (which the source joins with blanks).
\<close>

datatype ValidationError =
  EmptyInput
  | InvalidLength nat
  | InvalidCharacters string
  | NoVariableSlots

definition isDigit :: "char \<Rightarrow> bool" where
  "isDigit c = (c \<in> set ''0123456789'')"

text \<open>The character class \<open>[0-9_]\<close> of the regular expression.\<close>

definition allowedChar :: "char \<Rightarrow> bool" where
  "allowedChar c = (isDigit c \<or> c = CHR ''_'')"

text \<open>\<open>pattern.match(/[^0-9_]/g)\<close>: every match in order; the empty list stands for \<open>null\<close>.\<close>

definition matchInvalid :: "string \<Rightarrow> string" where
  "matchInvalid p = filter (\<lambda>c. \<not> allowedChar c) p"

text \<open>
  \<open>Array.from(new Set(xs))\<close>: a JavaScript set keeps its members in insertion order, and
  adding a member it already has changes nothing.
\<close>

definition arrayFromSet :: "'a list \<Rightarrow> 'a list" where
  "arrayFromSet xs = fold (\<lambda>x acc. if x \<in> set acc then acc else acc @ [x]) xs []"

definition validatePattern :: "string \<Rightarrow> GenerationOptions option \<Rightarrow> ValidationError option" where
  "validatePattern p options =
    (if p = [] then Some EmptyInput
     else if length p \<noteq> 10 then Some (InvalidLength (length p))
     else
       (let invalidChars = matchInvalid p in
        if invalidChars \<noteq> [] then Some (InvalidCharacters (arrayFromSet invalidChars))
        else if CHR ''_'' \<notin> set p then Some NoVariableSlots
        else None))"

text \<open>
  The spec's wording of what \<open>InvalidCharacters\<close> carries: the offending characters, each
  once, at the place of its first appearance.
\<close>

definition offendingFirstSeen :: "string \<Rightarrow> string" where
  "offendingFirstSeen p =
     map (\<lambda>i. p ! i)
       (filter (\<lambda>i. \<not> allowedChar (p ! i) \<and> p ! i \<notin> set (take i p)) [0..<length p])"

section \<open>generatePhoneNumbers\<close>

subsection \<open>Helpers of the JavaScript runtime\<close>

text \<open>\<open>n.toString()\<close> for a digit \<open>n < 10\<close>.\<close>

definition digitChar :: "nat \<Rightarrow> char" where
  "digitChar d = ''0123456789'' ! d"

text \<open>\<open>n.toString()\<close> for a non-negative integer: its decimal numeral.\<close>

fun toString :: "nat \<Rightarrow> string" where
  "toString n = (if n < 10 then [digitChar n] else toString (n div 10) @ [digitChar (n mod 10)])"

declare toString.simps [simp del]

text \<open>\<open>parseInt\<close> of a one-character string holding a decimal digit.\<close>

definition parseInt :: "char \<Rightarrow> int" where
  "parseInt c = int (of_char c) - 48"

text \<open>
  \<open>a.localeCompare(b)\<close>: negative, zero or positive. It is modelled as the comparison of
  the two strings character by character, which is what it computes on strings of decimal
  digits.
\<close>

definition localeCompare :: "string \<Rightarrow> string \<Rightarrow> int" where
  "localeCompare a b = (if a < b then - 1 else if a = b then 0 else 1)"

text \<open>\<open>Array.prototype.sort\<close> with a comparison function: a stable sort.\<close>

fun insertBy :: "('a \<Rightarrow> 'a \<Rightarrow> int) \<Rightarrow> 'a \<Rightarrow> 'a list \<Rightarrow> 'a list" where
  "insertBy cmp x [] = [x]"
| "insertBy cmp x (y # ys) = (if cmp x y \<le> 0 then x # y # ys else y # insertBy cmp x ys)"

fun sortBy :: "('a \<Rightarrow> 'a \<Rightarrow> int) \<Rightarrow> 'a list \<Rightarrow> 'a list" where
  "sortBy cmp [] = []"
| "sortBy cmp (x # xs) = insertBy cmp x (sortBy cmp xs)"

text \<open>\<open>digitCounts[d] || 0\<close>\<close>

definition getCount :: "(char \<rightharpoonup> nat) \<Rightarrow> char \<Rightarrow> nat" where
  "getCount digitCounts d = (case digitCounts d of None \<Rightarrow> 0 | Some c \<Rightarrow> c)"

subsection \<open>The steps of the generator\<close>

text \<open>The first loop: the positions of the pattern that hold \<open>_\<close>, in ascending order.\<close>

definition missingIndicesOf :: "string \<Rightarrow> nat list" where
  "missingIndicesOf p = filter (\<lambda>i. p ! i = CHR ''_'') [0..<length p]"

text \<open>
  The three variables \<open>maxDigitFreq\<close>, \<open>allowAdjacentDuplicates\<close> and \<open>allowSequences\<close>,
  set from the density. The density and the products \<open>numUnknowns * 0.35\<close> and
  \<open>numUnknowns * 0.6\<close> are taken as exact real numbers.
\<close>

record Profile =
  maxDigitFreq :: int
  allowAdjacentDuplicates :: bool
  allowSequences :: bool

definition constraintProfile :: "real \<Rightarrow> nat \<Rightarrow> Profile" where
  "constraintProfile density numUnknowns =
    (if density \<le> 0.4 then
       \<lparr>maxDigitFreq = max 2 \<lceil>real numUnknowns * 0.35\<rceil>,
        allowAdjacentDuplicates = False, allowSequences = False\<rparr>
     else if density \<le> 0.7 then
       \<lparr>maxDigitFreq = max 2 \<lceil>real numUnknowns * 0.6\<rceil>,
        allowAdjacentDuplicates = (density > 0.55), allowSequences = (density > 0.55)\<rparr>
     else
       \<lparr>maxDigitFreq = int numUnknowns,
        allowAdjacentDuplicates = True, allowSequences = True\<rparr>)"

text \<open>
  \<open>Math.random\<close> is modelled by an arbitrary infinite sequence \<open>rnd\<close> of natural numbers
  and a position in it: the draw \<open>Math.floor(Math.random() * 10)\<close> reads \<open>rnd pos mod 10\<close>
  and moves the position on by one. Every sequence of digits is the reading of some \<open>rnd\<close>.

  The retry loop of one slot (\<open>for retry < 20\<close>), by the number of retries left. It returns
  the accepted digit, or \<open>None\<close> when no draw was accepted (\<open>foundValidDigitForSlot\<close> is
  false), and the new position.
\<close>

fun fillSlot ::
  "Profile \<Rightarrow> (nat \<Rightarrow> nat) \<Rightarrow> nat \<Rightarrow> string \<Rightarrow> (char \<rightharpoonup> nat) \<Rightarrow> nat \<Rightarrow> nat \<Rightarrow> char option \<times> nat" where
  "fillSlot prof rnd k candidateDigits digitCounts 0 pos = (None, pos)"
| "fillSlot prof rnd k candidateDigits digitCounts (Suc retriesLeft) pos =
    (let d = digitChar (rnd pos mod 10) in
     if int (getCount digitCounts d) \<ge> maxDigitFreq prof then
       fillSlot prof rnd k candidateDigits digitCounts retriesLeft (pos + 1)
     else if \<not> allowAdjacentDuplicates prof \<and> k > 0 \<and> d = candidateDigits ! (k - 1) then
       fillSlot prof rnd k candidateDigits digitCounts retriesLeft (pos + 1)
     else if \<not> allowSequences prof \<and> k > 1 \<and>
       (let d1 = parseInt (candidateDigits ! (k - 2));
            d2 = parseInt (candidateDigits ! (k - 1));
            dCurrent = parseInt d
        in (d2 = d1 + 1 \<and> dCurrent = d2 + 1) \<or> (d2 = d1 - 1 \<and> dCurrent = d2 - 1)) then
       fillSlot prof rnd k candidateDigits digitCounts retriesLeft (pos + 1)
     else (Some d, pos + 1))"

text \<open>
  The loop over the slots (\<open>for k < numUnknowns\<close>). \<open>None\<close> stands for
  \<open>isCandidateStructureValid = false\<close>.
\<close>

function fillSlots ::
  "Profile \<Rightarrow> (nat \<Rightarrow> nat) \<Rightarrow> nat \<Rightarrow> nat \<Rightarrow> string \<Rightarrow> (char \<rightharpoonup> nat) \<Rightarrow> nat \<Rightarrow> string option \<times> nat" where
  "fillSlots prof rnd numUnknowns k candidateDigits digitCounts pos =
    (if k < numUnknowns then
       (case fillSlot prof rnd k candidateDigits digitCounts 20 pos of
          (None, pos') \<Rightarrow> (None, pos')
        | (Some d, pos') \<Rightarrow>
            fillSlots prof rnd numUnknowns (k + 1) (candidateDigits @ [d])
              (digitCounts(d \<mapsto> getCount digitCounts d + 1)) pos')
     else (Some candidateDigits, pos))"
  by pat_completeness auto
termination
  by (relation "measure (\<lambda>(prof, rnd, numUnknowns, k, cand, counts, pos). numUnknowns - k)") auto

declare fillSlots.simps [simp del]

text \<open>
  \<open>pattern.split('')\<close>, the \<open>forEach\<close> over \<open>missingIndices\<close> that writes
  \<open>candidateDigits[generatedIndex]\<close> at \<open>patternIndex\<close>, and \<open>join('')\<close>.
\<close>

definition splice :: "string \<Rightarrow> nat list \<Rightarrow> string \<Rightarrow> string" where
  "splice p missingIndices candidateDigits =
     fold (\<lambda>(patternIndex, generatedIndex) finalNumberArr.
             finalNumberArr[patternIndex := candidateDigits ! generatedIndex])
       (zip missingIndices [0..<length missingIndices]) p"

text \<open>The variables the \<open>while\<close> loop changes, and the position in the random sequence.\<close>

record GenState =
  results :: "GeneratedContact list"
  generatedSet :: "string fset"
  attempts :: int
  randomPos :: nat

text \<open>One iteration of the \<open>while\<close> loop.\<close>

definition attempt ::
  "string \<Rightarrow> string \<Rightarrow> nat list \<Rightarrow> Profile \<Rightarrow> nat \<Rightarrow> (nat \<Rightarrow> nat) \<Rightarrow> GenState \<Rightarrow> GenState" where
  "attempt p namePrefix missingIndices prof initialSize rnd st =
    (let attempts' = attempts st + 1 in
     case fillSlots prof rnd (length missingIndices) 0 [] Map.empty (randomPos st) of
       (None, pos') \<Rightarrow> st\<lparr>attempts := attempts', randomPos := pos'\<rparr>
     | (Some candidateDigits, pos') \<Rightarrow>
         (let numberStr = splice p missingIndices candidateDigits in
          if numberStr |\<notin>| generatedSet st then
            st\<lparr>results := results st @
                 [\<lparr>id' = toString (initialSize + length (results st) + 1),
                   number = numberStr, name = namePrefix, isSaved = Some False\<rparr>],
               generatedSet := finsert numberStr (generatedSet st),
               attempts := attempts', randomPos := pos'\<rparr>
          else st\<lparr>attempts := attempts', randomPos := pos'\<rparr>))"

text \<open>The \<open>while\<close> loop.\<close>

function generateLoop ::
  "string \<Rightarrow> string \<Rightarrow> nat list \<Rightarrow> Profile \<Rightarrow> nat \<Rightarrow> (nat \<Rightarrow> nat) \<Rightarrow> int \<Rightarrow> int \<Rightarrow> GenState \<Rightarrow> GenState" where
  "generateLoop p namePrefix missingIndices prof initialSize rnd targetCount maxAttempts st =
    (if int (length (results st)) < targetCount \<and> attempts st < maxAttempts then
       generateLoop p namePrefix missingIndices prof initialSize rnd targetCount maxAttempts
         (attempt p namePrefix missingIndices prof initialSize rnd st)
     else st)"
  by pat_completeness auto

termination
  by (relation "measure (\<lambda>(p, namePrefix, missingIndices, prof, initialSize, rnd, targetCount,
        maxAttempts, st). nat (maxAttempts - attempts st))")
    (auto simp: attempt_def Let_def split: prod.splits option.splits)

declare generateLoop.simps [simp del]

text \<open>The members the working set starts with: \<open>new Set<string>(excludeSet || [])\<close>.\<close>

definition excludedValues :: "string fset option \<Rightarrow> string fset" where
  "excludedValues excludeSet = (case excludeSet of None \<Rightarrow> {||} | Some s \<Rightarrow> s)"

text \<open>\<open>options?.repetitionDensity ?? 0.3\<close>\<close>

definition densityOf :: "GenerationOptions option \<Rightarrow> real" where
  "densityOf options = (case options of None \<Rightarrow> 0.3 | Some opt \<Rightarrow> repetitionDensity opt)"

text \<open>The size of the exclusion set: \<open>excludeSet?.size || 0\<close>.\<close>

definition excludeSize :: "string fset option \<Rightarrow> nat" where
  "excludeSize excludeSet = (case excludeSet of None \<Rightarrow> 0 | Some s \<Rightarrow> fcard s)"

text \<open>
  \<open>Math.min(count, Math.max(0, Math.pow(10, numUnknowns) - (excludeSet?.size || 0)))\<close>,
  with \<open>count\<close> an integer and the power taken exactly.
\<close>

definition targetCountOf :: "GenerationConfig \<Rightarrow> string fset option \<Rightarrow> int" where
  "targetCountOf config excludeSet =
    (let numUnknowns = length (missingIndicesOf (pattern config));
         maxPossibilities = (10::int) ^ numUnknowns;
         remainingPossibilities = maxPossibilities - int (excludeSize excludeSet)
     in min (count config) (max 0 remainingPossibilities))"

text \<open>
  The function up to the end of the \<open>while\<close> loop: the state the loop ends in. Its
  \<open>attempts\<close> is the number of iterations the loop has made.
\<close>

definition generateRun ::
  "(nat \<Rightarrow> nat) \<Rightarrow> GenerationConfig \<Rightarrow> GenerationOptions option \<Rightarrow> string fset option \<Rightarrow> GenState" where
  "generateRun rnd config options excludeSet =
    (let generatedSet0 = excludedValues excludeSet;
         initialSize = fcard generatedSet0;
         missingIndices = missingIndicesOf (pattern config);
         numUnknowns = length missingIndices;
         targetCount = targetCountOf config excludeSet;
         density = densityOf options;
         prof = constraintProfile density numUnknowns;
         maxAttempts = targetCount * 200 + 5000
     in generateLoop (pattern config) (contactNamePrefix config) missingIndices prof initialSize
          rnd targetCount maxAttempts
          \<lparr>results = [], generatedSet = generatedSet0, attempts = 0, randomPos = 0\<rparr>)"

text \<open>The whole function: the loop, then the sort by \<open>number\<close>.\<close>

definition generatePhoneNumbers ::
  "(nat \<Rightarrow> nat) \<Rightarrow> GenerationConfig \<Rightarrow> GenerationOptions option \<Rightarrow> string fset option
    \<Rightarrow> GeneratedContact list" where
  "generatePhoneNumbers rnd config options excludeSet =
     sortBy (\<lambda>a b. localeCompare (number a) (number b))
       (results (generateRun rnd config options excludeSet))"

section \<open>Notions of the statements and of the proofs\<close>

text \<open>
  The characters of a value at the wildcard positions of the pattern, from left to right.
\<close>

definition wildcardDigits :: "string \<Rightarrow> string \<Rightarrow> string" where
  "wildcardDigits p v = map (\<lambda>i. v ! i) (missingIndicesOf p)"

text \<open>
  The test of the sequence check on three digits: consecutive integers, ascending or
  descending.
\<close>

definition isRun :: "char \<Rightarrow> char \<Rightarrow> char \<Rightarrow> bool" where
  "isRun a b c =
     ((parseInt b = parseInt a + 1 \<and> parseInt c = parseInt b + 1) \<or>
      (parseInt b = parseInt a - 1 \<and> parseInt c = parseInt b - 1))"

text \<open>
  What the slot loop guarantees of a candidate it completes: every character is a digit
  that occurs at most \<open>maxDigitFreq\<close> times, and the adjacency and the sequence rule
  hold between neighbouring slots where the profile asks for them.
\<close>

definition goodCandidate :: "Profile \<Rightarrow> string \<Rightarrow> bool" where
  "goodCandidate prof c =
    ((\<forall>ch \<in> set c. isDigit ch \<and> int (count_list c ch) \<le> maxDigitFreq prof) \<and>
     (\<not> allowAdjacentDuplicates prof \<longrightarrow> (\<forall>j. j + 1 < length c \<longrightarrow> c ! j \<noteq> c ! (j + 1))) \<and>
     (\<not> allowSequences prof \<longrightarrow>
        (\<forall>j. j + 2 < length c \<longrightarrow> \<not> isRun (c ! j) (c ! (j + 1)) (c ! (j + 2)))))"

text \<open>
  The invariants of the \<open>while\<close> loop: the accepted values are distinct, lie in the
  working set and outside the exclusion set; the counters stay within their bounds; the
  labels count on from the initial size; every accepted value is the pattern with a good
  candidate spliced in.
\<close>

definition uniqueInv :: "string fset \<Rightarrow> GenState \<Rightarrow> bool" where
  "uniqueInv excl st =
    (distinct (map number (results st)) \<and>
     set (map number (results st)) \<subseteq> fset (generatedSet st) \<and>
     set (map number (results st)) \<inter> fset excl = {} \<and>
     excl |\<subseteq>| generatedSet st)"

definition boundInv :: "int \<Rightarrow> int \<Rightarrow> GenState \<Rightarrow> bool" where
  "boundInv targetCount maxAttempts st =
    (int (length (results st)) \<le> max 0 targetCount \<and>
     0 \<le> attempts st \<and> attempts st \<le> max 0 maxAttempts)"

definition idInv :: "nat \<Rightarrow> GenState \<Rightarrow> bool" where
  "idInv initialSize st =
    (map id' (results st) =
       map (\<lambda>i. toString (initialSize + i)) [1..<Suc (length (results st))])"

definition candInv :: "string \<Rightarrow> nat list \<Rightarrow> Profile \<Rightarrow> GenState \<Rightarrow> bool" where
  "candInv p mi prof st =
    (\<forall>r \<in> set (results st). \<exists>c. length c = length mi \<and> goodCandidate prof c \<and>
        number r = splice p mi c)"

text \<open>
  The relation between the runs of the loop on two patterns with the same wildcard
  positions: the same counters, and the same candidates accepted so far.
\<close>

definition sameRun :: "string \<Rightarrow> string \<Rightarrow> GenState \<Rightarrow> GenState \<Rightarrow> bool" where
  "sameRun p q s t =
    (attempts s = attempts t \<and> randomPos s = randomPos t \<and>
     (\<exists>cs. (\<forall>c \<in> set cs. length c = length (missingIndicesOf p)) \<and>
        map number (results s) = map (splice p (missingIndicesOf p)) cs \<and>
        map number (results t) = map (splice q (missingIndicesOf q)) cs \<and>
        fset (generatedSet s) = set (map (splice p (missingIndicesOf p)) cs) \<and>
        fset (generatedSet t) = set (map (splice q (missingIndicesOf q)) cs)))"

text \<open>
  The number that a string of decimal digits denotes, the most significant digit first.
\<close>

fun decimalValue :: "string \<Rightarrow> nat" where
  "decimalValue [] = 0"
| "decimalValue (c # cs) = (of_char c - 48) * 10 ^ length cs + decimalValue cs"

section \<open>Lemmas\<close>

subsection \<open>The sort\<close>

lemma mset_insertBy: "mset (insertBy cmp x xs) = add_mset x (mset xs)"
  by (induction xs) simp_all

lemma mset_sortBy: "mset (sortBy cmp xs) = mset xs"
  by (induction xs) (simp_all add: mset_insertBy)

lemma set_sortBy: "set (sortBy cmp xs) = set xs"
  using mset_sortBy [of cmp xs] by (metis set_mset_mset)

lemma length_sortBy: "length (sortBy cmp xs) = length xs"
  using mset_sortBy [of cmp xs] by (metis size_mset)

lemma localeCompare_le: "localeCompare a b \<le> 0 \<longleftrightarrow> a \<le> b"
  by (auto simp: localeCompare_def)

lemma set_insertBy: "set (insertBy cmp x xs) = insert x (set xs)"
  by (induction xs) auto

lemma sorted_insertBy_number:
  "sorted (map number xs) \<Longrightarrow>
   sorted (map number (insertBy (\<lambda>a b. localeCompare (number a) (number b)) x xs))"
  by (induction xs) (auto simp: localeCompare_le set_insertBy)

lemma sorted_sortBy_number:
  "sorted (map number (sortBy (\<lambda>a b. localeCompare (number a) (number b)) xs))"
  by (induction xs) (simp_all add: sorted_insertBy_number)

lemma mset_generatePhoneNumbers:
  "mset (generatePhoneNumbers rnd config options excludeSet) =
   mset (results (generateRun rnd config options excludeSet))"
  by (simp add: generatePhoneNumbers_def mset_sortBy)

lemma set_generatePhoneNumbers:
  "set (generatePhoneNumbers rnd config options excludeSet) =
   set (results (generateRun rnd config options excludeSet))"
  by (simp add: generatePhoneNumbers_def set_sortBy)

lemma length_generatePhoneNumbers:
  "length (generatePhoneNumbers rnd config options excludeSet) =
   length (results (generateRun rnd config options excludeSet))"
  by (simp add: generatePhoneNumbers_def length_sortBy)

subsection \<open>The loop and one iteration\<close>

lemma attempts_attempt:
  "attempts (attempt p namePrefix missingIndices prof initialSize rnd st) = attempts st + 1"
  by (simp add: attempt_def Let_def split: prod.splits option.splits)

lemma generateLoop_invariant:
  assumes "P st"
    and "\<And>s. P s \<Longrightarrow> int (length (results s)) < targetCount \<Longrightarrow> attempts s < maxAttempts
          \<Longrightarrow> P (attempt p namePrefix mi prof initialSize rnd s)"
  shows "P (generateLoop p namePrefix mi prof initialSize rnd targetCount maxAttempts st)"
  using assms
proof (induction p namePrefix mi prof initialSize rnd targetCount maxAttempts st
    rule: generateLoop.induct)
  case (1 p namePrefix mi prof initialSize rnd targetCount maxAttempts st)
  show ?case
  proof (cases "int (length (results st)) < targetCount \<and> attempts st < maxAttempts")
    case True
    then have "P (attempt p namePrefix mi prof initialSize rnd st)"
      using "1.prems" by simp
    then have "P (generateLoop p namePrefix mi prof initialSize rnd targetCount maxAttempts
        (attempt p namePrefix mi prof initialSize rnd st))"
      using True "1.IH" "1.prems"(2) by simp
    with True show ?thesis
      by (subst generateLoop.simps) simp
  next
    case False
    with "1.prems"(1) show ?thesis
      by (subst generateLoop.simps) auto
  qed
qed

lemma generateLoop_exit:
  "\<not> (int (length (results (generateLoop p namePrefix mi prof initialSize rnd targetCount maxAttempts st))) < targetCount \<and>
     attempts (generateLoop p namePrefix mi prof initialSize rnd targetCount maxAttempts st) < maxAttempts)"
proof (induction p namePrefix mi prof initialSize rnd targetCount maxAttempts st
    rule: generateLoop.induct)
  case (1 p namePrefix mi prof initialSize rnd targetCount maxAttempts st)
  show ?case
  proof (cases "int (length (results st)) < targetCount \<and> attempts st < maxAttempts")
    case True
    with "1.IH" show ?thesis by (subst (1 2) generateLoop.simps) simp
  next
    case False
    then show ?thesis by (subst (1 2) generateLoop.simps) auto
  qed
qed

lemma attempt_cases:
  obtains (skip)
      "results (attempt p namePrefix mi prof initialSize rnd st) = results st"
      "generatedSet (attempt p namePrefix mi prof initialSize rnd st) = generatedSet st"
  | (push) c pos' where
      "fillSlots prof rnd (length mi) 0 [] Map.empty (randomPos st) = (Some c, pos')"
      "splice p mi c |\<notin>| generatedSet st"
      "results (attempt p namePrefix mi prof initialSize rnd st) =
         results st @ [\<lparr>id' = toString (initialSize + length (results st) + 1),
                        number = splice p mi c, name = namePrefix, isSaved = Some False\<rparr>]"
      "generatedSet (attempt p namePrefix mi prof initialSize rnd st) =
         finsert (splice p mi c) (generatedSet st)"
proof (cases "fillSlots prof rnd (length mi) 0 [] Map.empty (randomPos st)")
  case (Pair r pos')
  show ?thesis
  proof (cases r)
    case None
    with Pair skip show ?thesis by (simp add: attempt_def)
  next
    case (Some c)
    show ?thesis
    proof (cases "splice p mi c |\<in>| generatedSet st")
      case True
      with Pair Some skip show ?thesis by (simp add: attempt_def)
    next
      case False
      with Pair Some push [of c pos'] show ?thesis by (simp add: attempt_def Let_def)
    qed
  qed
qed

lemma length_results_attempt:
  "length (results (attempt p namePrefix mi prof initialSize rnd st)) \<le> length (results st) + 1"
  by (cases rule: attempt_cases [of p namePrefix mi prof initialSize rnd st]) simp_all

subsection \<open>The wildcard positions and the splice\<close>

lemma missingIndicesOf_set:
  "set (missingIndicesOf p) = {i. i < length p \<and> p ! i = CHR ''_''}"
  by (auto simp: missingIndicesOf_def)

lemma missingIndicesOf_distinct: "distinct (missingIndicesOf p)"
  by (simp add: missingIndicesOf_def)

lemma missingIndicesOf_sorted: "sorted (missingIndicesOf p)"
  by (simp add: missingIndicesOf_def sorted_wrt_filter)

lemma fold_update_length:
  "length (fold (\<lambda>(patternIndex, generatedIndex) arr. arr[patternIndex := c ! generatedIndex])
      zs p) = length p"
  by (induction zs arbitrary: p) (auto split: prod.splits)

lemma fold_update_other:
  "i \<notin> fst ` set zs \<Longrightarrow>
   fold (\<lambda>(patternIndex, generatedIndex) arr. arr[patternIndex := c ! generatedIndex]) zs p ! i
     = p ! i"
  by (induction zs arbitrary: p) (auto split: prod.splits)

lemma fold_update_hit:
  "distinct (map fst zs) \<Longrightarrow> j < length zs \<Longrightarrow> fst (zs ! j) < length p \<Longrightarrow>
   fold (\<lambda>(patternIndex, generatedIndex) arr. arr[patternIndex := c ! generatedIndex]) zs p
     ! fst (zs ! j) = c ! snd (zs ! j)"
proof (induction zs arbitrary: p j)
  case Nil
  then show ?case by simp
next
  case (Cons z zs)
  obtain m g where z: "z = (m, g)" by (cases z)
  show ?case
  proof (cases j)
    case 0
    have "m \<notin> fst ` set zs" using Cons.prems(1) z by auto
    then show ?thesis
      using Cons.prems z 0 by (simp add: fold_update_other)
  next
    case (Suc j')
    then show ?thesis
      using Cons.prems Cons.IH [of j' "p[m := c ! g]"] z by simp
  qed
qed

lemma length_splice: "length (splice p mi c) = length p"
  by (simp add: splice_def fold_update_length)

lemma splice_fixed:
  assumes "i \<notin> set mi"
  shows "splice p mi c ! i = p ! i"
proof -
  have "fst ` set (zip mi [0..<length mi]) = set (map fst (zip mi [0..<length mi]))"
    by (simp only: set_map)
  then have "i \<notin> fst ` set (zip mi [0..<length mi])"
    using assms by simp
  then show ?thesis
    unfolding splice_def by (rule fold_update_other)
qed

lemma splice_slot:
  assumes "distinct mi" "j < length mi" "mi ! j < length p"
  shows "splice p mi c ! (mi ! j) = c ! j"
  using fold_update_hit [of "zip mi [0..<length mi]" j p c] assms
  by (simp add: splice_def)

lemma wildcardDigits_splice:
  assumes "length c = length (missingIndicesOf p)"
  shows "wildcardDigits p (splice p (missingIndicesOf p) c) = c"
proof (rule nth_equalityI)
  show "length (wildcardDigits p (splice p (missingIndicesOf p) c)) = length c"
    using assms by (simp add: wildcardDigits_def)
next
  fix j
  assume "j < length (wildcardDigits p (splice p (missingIndicesOf p) c))"
  then have j: "j < length (missingIndicesOf p)" by (simp add: wildcardDigits_def)
  then have "missingIndicesOf p ! j \<in> set (missingIndicesOf p)" by (rule nth_mem)
  then have "missingIndicesOf p ! j < length p" by (simp add: missingIndicesOf_set)
  with j show "wildcardDigits p (splice p (missingIndicesOf p) c) ! j = c ! j"
    by (simp add: wildcardDigits_def splice_slot missingIndicesOf_distinct)
qed

subsection \<open>The slot loops\<close>

lemma isDigit_digitChar: "d < 10 \<Longrightarrow> isDigit (digitChar d)"
  unfolding isDigit_def digitChar_def by (rule nth_mem) simp

lemma fillSlot_Some:
  "fillSlot prof rnd k cand counts r pos = (Some d, pos') \<Longrightarrow>
     isDigit d \<and> int (getCount counts d) < maxDigitFreq prof \<and>
     (\<not> allowAdjacentDuplicates prof \<and> k > 0 \<longrightarrow> d \<noteq> cand ! (k - 1)) \<and>
     (\<not> allowSequences prof \<and> k > 1 \<longrightarrow> \<not> isRun (cand ! (k - 2)) (cand ! (k - 1)) d)"
proof (induction r arbitrary: pos)
  case 0
  then show ?case by simp
next
  case (Suc r)
  then show ?case
    by (auto simp: Let_def isRun_def isDigit_digitChar split: if_splits)
qed

lemma goodCandidate_Nil: "goodCandidate prof []"
  by (simp add: goodCandidate_def)

lemma goodCandidate_snoc:
  assumes good: "goodCandidate prof c"
    and counts: "\<forall>ch. getCount counts ch = count_list c ch"
    and slot: "fillSlot prof rnd (length c) c counts r pos = (Some d, pos')"
  shows "goodCandidate prof (c @ [d])"
proof -
  note s = fillSlot_Some [OF slot]
  have freq: "\<forall>ch \<in> set (c @ [d]). isDigit ch \<and> int (count_list (c @ [d]) ch) \<le> maxDigitFreq prof"
    using good s counts by (auto simp: goodCandidate_def)
  have adj: "(c @ [d]) ! j \<noteq> (c @ [d]) ! (j + 1)"
    if "\<not> allowAdjacentDuplicates prof" "j + 1 < length (c @ [d])" for j
  proof (cases "j + 1 < length c")
    case True
    then show ?thesis using good that by (simp add: goodCandidate_def nth_append)
  next
    case False
    then have jl: "j = length c - 1" and pos: "0 < length c" using that by auto
    have a: "(c @ [d]) ! j = c ! (length c - 1)"
      unfolding jl using pos by (simp add: nth_append)
    have b: "(c @ [d]) ! (j + 1) = d"
      using jl pos by (simp add: nth_append)
    show ?thesis using s that pos unfolding a b by auto
  qed
  have run: "\<not> isRun ((c @ [d]) ! j) ((c @ [d]) ! (j + 1)) ((c @ [d]) ! (j + 2))"
    if "\<not> allowSequences prof" "j + 2 < length (c @ [d])" for j
  proof (cases "j + 2 < length c")
    case True
    then show ?thesis using good that by (simp add: goodCandidate_def nth_append)
  next
    case False
    then have jl: "j = length c - 2" and pos: "1 < length c" using that by auto
    have lt: "length c - 2 < length c" "j + 1 = length c - 1" "length c - 1 < length c"
      "j + 2 = length c"
      using jl pos by arith+
    have a: "(c @ [d]) ! j = c ! (length c - 2)"
      unfolding jl using lt(1) by (simp add: nth_append)
    have b: "(c @ [d]) ! (j + 1) = c ! (length c - 1)"
      unfolding lt(2) using lt(3) by (simp add: nth_append)
    have e: "(c @ [d]) ! (j + 2) = d"
      unfolding lt(4) by simp
    show ?thesis using s that pos unfolding a b e by auto
  qed
  show ?thesis
    unfolding goodCandidate_def using freq adj run by blast
qed

lemma fillSlots_Some:
  "fillSlots prof rnd n k c counts pos = (Some c', pos') \<Longrightarrow>
   length c = k \<Longrightarrow> k \<le> n \<Longrightarrow> goodCandidate prof c \<Longrightarrow>
   (\<forall>ch. getCount counts ch = count_list c ch) \<Longrightarrow>
   length c' = n \<and> goodCandidate prof c'"
proof (induction prof rnd n k c counts pos rule: fillSlots.induct)
  case (1 prof rnd n k c counts pos)
  show ?case
  proof (cases "k < n")
    case False
    then show ?thesis
      using "1.prems" by (subst (asm) fillSlots.simps) simp
  next
    case True
    from "1.prems"(1) True obtain d p1 where
      slot: "fillSlot prof rnd k c counts 20 pos = (Some d, p1)" and
      rest: "fillSlots prof rnd n (k + 1) (c @ [d]) (counts(d \<mapsto> getCount counts d + 1)) p1
               = (Some c', pos')"
      by (subst (asm) fillSlots.simps) (auto split: prod.splits option.splits)
    have good: "goodCandidate prof (c @ [d])"
      using goodCandidate_snoc [OF "1.prems"(4) "1.prems"(5)] slot "1.prems"(2) by simp
    have cnt: "\<forall>ch. getCount (counts(d \<mapsto> getCount counts d + 1)) ch = count_list (c @ [d]) ch"
      using "1.prems"(5) by (simp add: getCount_def)
    show ?thesis
      using "1.IH" [OF True slot [symmetric] refl rest _ _ good cnt] True "1.prems"(2) by simp
  qed
qed

lemma strict_profile:
  "density \<le> 0.4 \<Longrightarrow>
   constraintProfile density 8 =
     \<lparr>maxDigitFreq = 3, allowAdjacentDuplicates = False, allowSequences = False\<rparr>"
  by (simp add: constraintProfile_def)

subsection \<open>The invariants\<close>

lemma uniqueInv_attempt:
  assumes "uniqueInv excl st"
  shows "uniqueInv excl (attempt p namePrefix mi prof initialSize rnd st)"
proof (cases rule: attempt_cases [of p namePrefix mi prof initialSize rnd st])
  case skip
  with assms show ?thesis by (simp add: uniqueInv_def)
next
  case (push c pos')
  with assms show ?thesis by (auto simp: uniqueInv_def)
qed

lemma uniqueInv_run:
  "uniqueInv (excludedValues excludeSet) (generateRun rnd config options excludeSet)"
  unfolding generateRun_def Let_def
proof (rule generateLoop_invariant [where P = "uniqueInv (excludedValues excludeSet)"])
  show "uniqueInv (excludedValues excludeSet)
     \<lparr>results = [], generatedSet = excludedValues excludeSet, attempts = 0, randomPos = 0\<rparr>"
    by (simp add: uniqueInv_def)
qed (rule uniqueInv_attempt)

lemma boundInv_loop:
  assumes "boundInv targetCount maxAttempts st"
  shows "boundInv targetCount maxAttempts
     (generateLoop p namePrefix mi prof initialSize rnd targetCount maxAttempts st)"
proof (rule generateLoop_invariant [where P = "boundInv targetCount maxAttempts"])
  show "boundInv targetCount maxAttempts st" by (rule assms)
next
  fix s
  assume "boundInv targetCount maxAttempts s" "int (length (results s)) < targetCount"
    "attempts s < maxAttempts"
  then show "boundInv targetCount maxAttempts (attempt p namePrefix mi prof initialSize rnd s)"
    using length_results_attempt [of p namePrefix mi prof initialSize rnd s]
    by (simp add: boundInv_def attempts_attempt)
qed

lemma boundInv_run:
  "boundInv (targetCountOf config excludeSet) (targetCountOf config excludeSet * 200 + 5000)
     (generateRun rnd config options excludeSet)"
  unfolding generateRun_def Let_def
  by (rule boundInv_loop) (simp add: boundInv_def)

lemma targetCountOf_eq:
  "targetCountOf config excludeSet =
     min (count config)
       (max 0 (10 ^ length (missingIndicesOf (pattern config)) - int (excludeSize excludeSet)))"
  by (simp add: targetCountOf_def Let_def)

lemma idInv_attempt:
  assumes "idInv initialSize st"
  shows "idInv initialSize (attempt p namePrefix mi prof initialSize rnd st)"
proof (cases rule: attempt_cases [of p namePrefix mi prof initialSize rnd st])
  case skip
  with assms show ?thesis by (simp add: idInv_def)
next
  case (push c pos')
  with assms show ?thesis by (simp add: idInv_def)
qed

lemma idInv_run:
  "idInv (excludeSize excludeSet) (generateRun rnd config options excludeSet)"
proof -
  have eq: "fcard (excludedValues excludeSet) = excludeSize excludeSet"
    by (simp add: excludedValues_def excludeSize_def split: option.splits)
  show ?thesis
    unfolding generateRun_def Let_def eq
  proof (rule generateLoop_invariant [where P = "idInv (excludeSize excludeSet)"])
    show "idInv (excludeSize excludeSet)
       \<lparr>results = [], generatedSet = excludedValues excludeSet, attempts = 0, randomPos = 0\<rparr>"
      by (simp add: idInv_def)
  qed (rule idInv_attempt)
qed

lemma candInv_attempt:
  assumes "candInv p mi prof st"
  shows "candInv p mi prof (attempt p namePrefix mi prof initialSize rnd st)"
proof (cases rule: attempt_cases [of p namePrefix mi prof initialSize rnd st])
  case skip
  with assms show ?thesis by (simp add: candInv_def)
next
  case (push c pos')
  have "length c = length mi \<and> goodCandidate prof c"
    by (rule fillSlots_Some [OF push(1)]) (simp_all add: goodCandidate_Nil getCount_def)
  with assms push(3) show ?thesis by (auto simp: candInv_def)
qed

lemma candInv_run:
  "candInv (pattern config) (missingIndicesOf (pattern config))
     (constraintProfile (densityOf options) (length (missingIndicesOf (pattern config))))
     (generateRun rnd config options excludeSet)"
  unfolding generateRun_def Let_def
proof (rule generateLoop_invariant [where P = "candInv (pattern config)
     (missingIndicesOf (pattern config))
     (constraintProfile (densityOf options) (length (missingIndicesOf (pattern config))))"])
  show "candInv (pattern config) (missingIndicesOf (pattern config))
     (constraintProfile (densityOf options) (length (missingIndicesOf (pattern config))))
     \<lparr>results = [], generatedSet = excludedValues excludeSet, attempts = 0, randomPos = 0\<rparr>"
    by (simp add: candInv_def)
qed (rule candInv_attempt)

lemma generated_candidate:
  assumes "r \<in> set (generatePhoneNumbers rnd config options excludeSet)"
  obtains c where "length c = length (missingIndicesOf (pattern config))"
    "goodCandidate (constraintProfile (densityOf options)
        (length (missingIndicesOf (pattern config)))) c"
    "number r = splice (pattern config) (missingIndicesOf (pattern config)) c"
  using assms candInv_run [of config options rnd excludeSet]
  unfolding set_generatePhoneNumbers candInv_def by blast

lemma validatePattern_None:
  assumes "validatePattern p options = None"
  shows "length p = 10" "\<forall>c \<in> set p. allowedChar c" "CHR ''_'' \<in> set p"
  using assms
  by (auto simp: validatePattern_def Let_def matchInvalid_def filter_empty_conv split: if_splits)

subsection \<open>The validator\<close>

lemma arrayFromSet_snoc:
  "arrayFromSet (xs @ [x]) =
     (if x \<in> set (arrayFromSet xs) then arrayFromSet xs else arrayFromSet xs @ [x])"
  by (simp add: arrayFromSet_def)

lemma set_arrayFromSet: "set (arrayFromSet xs) = set xs"
  by (induction xs rule: rev_induct) (auto simp: arrayFromSet_snoc, simp add: arrayFromSet_def)

lemma distinct_arrayFromSet: "distinct (arrayFromSet xs)"
  by (induction xs rule: rev_induct) (auto simp: arrayFromSet_snoc, simp add: arrayFromSet_def)

lemma offendingFirstSeen_snoc:
  "offendingFirstSeen (p @ [x]) =
     offendingFirstSeen p @ (if \<not> allowedChar x \<and> x \<notin> set p then [x] else [])"
proof -
  have "map (\<lambda>i. (p @ [x]) ! i)
          (filter (\<lambda>i. \<not> allowedChar ((p @ [x]) ! i) \<and> (p @ [x]) ! i \<notin> set (take i (p @ [x])))
             [0..<length p])
        = map (\<lambda>i. p ! i)
          (filter (\<lambda>i. \<not> allowedChar (p ! i) \<and> p ! i \<notin> set (take i p)) [0..<length p])"
    by (intro map_cong filter_cong) (auto simp: nth_append)
  then show ?thesis
    by (simp add: offendingFirstSeen_def)
qed

lemma arrayFromSet_matchInvalid: "arrayFromSet (matchInvalid p) = offendingFirstSeen p"
proof (induction p rule: rev_induct)
  case Nil
  show ?case by (simp add: arrayFromSet_def matchInvalid_def offendingFirstSeen_def)
next
  case (snoc x p)
  have m: "matchInvalid (p @ [x]) = matchInvalid p @ (if \<not> allowedChar x then [x] else [])"
    by (simp add: matchInvalid_def)
  have s: "set (arrayFromSet (matchInvalid p)) = {c \<in> set p. \<not> allowedChar c}"
    by (auto simp: set_arrayFromSet matchInvalid_def)
  show ?case
    unfolding m offendingFirstSeen_snoc
    using snoc.IH s by (auto simp: arrayFromSet_snoc)
qed

subsection \<open>The shape of the returned values\<close>

lemma generated_fixed:
  assumes "r \<in> set (generatePhoneNumbers rnd config options excludeSet)"
  shows "length (number r) = length (pattern config)"
    and "pattern config ! i \<noteq> CHR ''_'' \<Longrightarrow> number r ! i = pattern config ! i"
proof -
  let ?p = "pattern config"
  let ?mi = "missingIndicesOf ?p"
  from assms obtain c where c: "number r = splice ?p ?mi c"
    by (rule generated_candidate)
  show "length (number r) = length ?p"
    unfolding c by (rule length_splice)
  show "number r ! i = ?p ! i" if "?p ! i \<noteq> CHR ''_''"
  proof -
    have "i \<notin> set ?mi" using that by (simp add: missingIndicesOf_set)
    then show ?thesis unfolding c by (rule splice_fixed)
  qed
qed

lemma generated_digits:
  assumes "validatePattern (pattern config) options = None"
    and "r \<in> set (generatePhoneNumbers rnd config options excludeSet)"
  shows "\<forall>ch \<in> set (number r). isDigit ch"
proof -
  let ?p = "pattern config"
  let ?mi = "missingIndicesOf ?p"
  note v = validatePattern_None [OF assms(1)]
  from assms(2) obtain c where c: "length c = length ?mi"
    "goodCandidate (constraintProfile (densityOf options) (length ?mi)) c"
    "number r = splice ?p ?mi c"
    by (rule generated_candidate)
  have len: "length (number r) = 10"
    using generated_fixed(1) [OF assms(2)] v(1) by simp
  have dig: "isDigit (number r ! i)" if "i < 10" for i
  proof (cases "?p ! i = CHR ''_''")
    case False
    have "?p ! i \<in> set ?p" using that v(1) by simp
    then have "allowedChar (?p ! i)" using v(2) by blast
    with False generated_fixed(2) [OF assms(2) False] show ?thesis
      by (simp add: allowedChar_def)
  next
    case True
    then have "i \<in> set ?mi" using that v(1) by (simp add: missingIndicesOf_set)
    then obtain j where j: "j < length ?mi" "?mi ! j = i" by (auto simp: in_set_conv_nth)
    have "number r ! i = c ! j"
      unfolding c(3) j(2) [symmetric]
      using j that v(1) by (intro splice_slot) (simp_all add: missingIndicesOf_distinct)
    moreover have "c ! j \<in> set c" using j(1) c(1) by simp
    ultimately show ?thesis using c(2) by (simp add: goodCandidate_def)
  qed
  show ?thesis
    using dig len by (auto simp: in_set_conv_nth)
qed

lemma strict_flags:
  "density \<le> 0.55 \<Longrightarrow>
   \<not> allowAdjacentDuplicates (constraintProfile density n) \<and>
   \<not> allowSequences (constraintProfile density n)"
  by (simp add: constraintProfile_def)

lemma wildcard_order_rules:
  assumes "densityOf options \<le> 0.55"
    and "r \<in> set (generatePhoneNumbers rnd config options excludeSet)"
  shows "(\<forall>j. j + 1 < length (missingIndicesOf (pattern config)) \<longrightarrow>
       wildcardDigits (pattern config) (number r) ! j
         \<noteq> wildcardDigits (pattern config) (number r) ! (j + 1)) \<and>
    (\<forall>j. j + 2 < length (missingIndicesOf (pattern config)) \<longrightarrow>
       \<not> isRun (wildcardDigits (pattern config) (number r) ! j)
          (wildcardDigits (pattern config) (number r) ! (j + 1))
          (wildcardDigits (pattern config) (number r) ! (j + 2)))"
proof -
  let ?p = "pattern config"
  let ?mi = "missingIndicesOf ?p"
  from assms(2) obtain c where c: "length c = length ?mi"
    "goodCandidate (constraintProfile (densityOf options) (length ?mi)) c"
    "number r = splice ?p ?mi c"
    by (rule generated_candidate)
  have w: "wildcardDigits ?p (number r) = c"
    unfolding c(3) using c(1) by (rule wildcardDigits_splice)
  show ?thesis
    unfolding w using c(1,2) strict_flags [OF assms(1)]
    by (simp add: goodCandidate_def)
qed

subsection \<open>Two patterns with the same wildcard positions\<close>

lemma splice_inj:
  assumes "length c = length (missingIndicesOf p)" "length c' = length (missingIndicesOf p)"
    and "splice p (missingIndicesOf p) c = splice p (missingIndicesOf p) c'"
  shows "c = c'"
proof -
  have "c = wildcardDigits p (splice p (missingIndicesOf p) c)"
    by (rule wildcardDigits_splice [OF assms(1), symmetric])
  also have "\<dots> = wildcardDigits p (splice p (missingIndicesOf p) c')"
    by (simp only: assms(3))
  also have "\<dots> = c'"
    by (rule wildcardDigits_splice [OF assms(2)])
  finally show ?thesis .
qed

lemma sameRun_length:
  "sameRun p q s t \<Longrightarrow> length (results s) = length (results t)"
proof -
  assume "sameRun p q s t"
  then obtain cs where "map number (results s) = map (splice p (missingIndicesOf p)) cs"
    "map number (results t) = map (splice q (missingIndicesOf q)) cs"
    unfolding sameRun_def by blast
  then have "length (map number (results s)) = length cs"
    "length (map number (results t)) = length cs"
    by simp_all
  then show ?thesis by simp
qed

lemma attempt_None:
  assumes "fillSlots prof rnd (length mi) 0 [] Map.empty (randomPos st) = (None, pos')"
  shows "attempt p a mi prof n rnd st = st\<lparr>attempts := attempts st + 1, randomPos := pos'\<rparr>"
  using assms by (simp add: attempt_def)

lemma attempt_dup:
  assumes "fillSlots prof rnd (length mi) 0 [] Map.empty (randomPos st) = (Some c, pos')"
    and "splice p mi c |\<in>| generatedSet st"
  shows "attempt p a mi prof n rnd st = st\<lparr>attempts := attempts st + 1, randomPos := pos'\<rparr>"
  using assms by (simp add: attempt_def)

lemma attempt_new:
  assumes "fillSlots prof rnd (length mi) 0 [] Map.empty (randomPos st) = (Some c, pos')"
    and "splice p mi c |\<notin>| generatedSet st"
  shows "attempt p a mi prof n rnd st =
    st\<lparr>results := results st @
         [\<lparr>id' = toString (n + length (results st) + 1),
           number = splice p mi c, name = a, isSaved = Some False\<rparr>],
       generatedSet := finsert (splice p mi c) (generatedSet st),
       attempts := attempts st + 1, randomPos := pos'\<rparr>"
  using assms by (simp add: attempt_def Let_def)

lemma sameRun_attempt:
  assumes mi: "missingIndicesOf p = missingIndicesOf q"
    and rel: "sameRun p q s t"
  shows "sameRun p q (attempt p a (missingIndicesOf p) prof n rnd s)
      (attempt q b (missingIndicesOf q) prof n rnd t)"
proof -
  let ?mi = "missingIndicesOf p"
  let ?mq = "missingIndicesOf q"
  from rel obtain cs where cs: "\<forall>c \<in> set cs. length c = length ?mi"
    "map number (results s) = map (splice p ?mi) cs"
    "map number (results t) = map (splice q ?mq) cs"
    "fset (generatedSet s) = set (map (splice p ?mi) cs)"
    "fset (generatedSet t) = set (map (splice q ?mq) cs)"
    and at: "attempts s = attempts t" and rp: "randomPos s = randomPos t"
    unfolding sameRun_def by blast
  obtain res pos' where f: "fillSlots prof rnd (length ?mi) 0 [] Map.empty (randomPos s) = (res, pos')"
    by (cases "fillSlots prof rnd (length ?mi) 0 [] Map.empty (randomPos s)")
  have g: "fillSlots prof rnd (length ?mq) 0 [] Map.empty (randomPos t) = (res, pos')"
    using f by (simp only: mi rp)
  have skip: "sameRun p q (s\<lparr>attempts := attempts s + 1, randomPos := pos'\<rparr>)
      (t\<lparr>attempts := attempts t + 1, randomPos := pos'\<rparr>)"
    using rel by (simp add: sameRun_def)
  show ?thesis
  proof (cases res)
    case None
    show ?thesis
      unfolding attempt_None [OF f [unfolded None]] attempt_None [OF g [unfolded None]]
      by (rule skip)
  next
    case (Some c)
    note f' = f [unfolded Some] and g' = g [unfolded Some]
    have len: "length c = length ?mi"
      using fillSlots_Some [OF f'] by (simp add: goodCandidate_Nil getCount_def)
    have inp: "splice p ?mi c |\<in>| generatedSet s \<longleftrightarrow> c \<in> set cs"
    proof
      assume "splice p ?mi c |\<in>| generatedSet s"
      then have "splice p ?mi c \<in> set (map (splice p ?mi) cs)" using cs(4) by simp
      then obtain c' where c': "c' \<in> set cs" "splice p ?mi c = splice p ?mi c'" by auto
      from c'(1) cs(1) have "length c' = length ?mi" by blast
      from splice_inj [OF len this c'(2)] c'(1) show "c \<in> set cs" by simp
    next
      assume "c \<in> set cs"
      then show "splice p ?mi c |\<in>| generatedSet s" using cs(4) by simp
    qed
    have inq: "splice q ?mq c |\<in>| generatedSet t \<longleftrightarrow> c \<in> set cs"
    proof
      assume "splice q ?mq c |\<in>| generatedSet t"
      then have "splice q ?mq c \<in> set (map (splice q ?mq) cs)"
        using cs(5) by simp
      then obtain c' where c': "c' \<in> set cs" "splice q ?mq c = splice q ?mq c'" by auto
      from c'(1) cs(1) have l': "length c' = length ?mq" unfolding mi by blast
      have l: "length c = length ?mq" using len unfolding mi .
      from splice_inj [OF l l' c'(2)] c'(1) show "c \<in> set cs" by simp
    next
      assume "c \<in> set cs"
      then show "splice q ?mq c |\<in>| generatedSet t" using cs(5) by simp
    qed
    show ?thesis
    proof (cases "c \<in> set cs")
      case True
      show ?thesis
        unfolding attempt_dup [OF f' inp [THEN iffD2, OF True]]
          attempt_dup [OF g' inq [THEN iffD2, OF True]]
        by (rule skip)
    next
      case False
      have np: "splice p ?mi c |\<notin>| generatedSet s" using False inp by simp
      have nq: "splice q ?mq c |\<notin>| generatedSet t" using False inq by simp
      have 1: "\<forall>c' \<in> set (cs @ [c]). length c' = length ?mi" using cs(1) len by auto
      show ?thesis
        unfolding attempt_new [OF f' np] attempt_new [OF g' nq] sameRun_def
      proof (intro conjI exI [of _ "cs @ [c]"])
        show "\<forall>c' \<in> set (cs @ [c]). length c' = length ?mi" by (rule 1)
      qed (simp_all add: at cs(2-5))
    qed
  qed
qed

lemma sameRun_loop:
  "mp = missingIndicesOf p \<Longrightarrow> mq = missingIndicesOf q \<Longrightarrow> mp = mq \<Longrightarrow> sameRun p q s t \<Longrightarrow>
    sameRun p q (generateLoop p a mp prof n rnd targetCount maxAttempts s)
      (generateLoop q b mq prof n rnd targetCount maxAttempts t)"
proof (induction p a mp prof n rnd targetCount maxAttempts s arbitrary: t
    rule: generateLoop.induct)
  case (1 p a mp prof n rnd targetCount maxAttempts s)
  have mi: "missingIndicesOf p = missingIndicesOf q"
    using "1.prems"(1-3) by simp
  have len: "length (results s) = length (results t)"
    using "1.prems"(4) by (rule sameRun_length)
  have att: "attempts s = attempts t"
    using "1.prems"(4) by (simp add: sameRun_def)
  show ?case
  proof (cases "int (length (results s)) < targetCount \<and> attempts s < maxAttempts")
    case True
    then have Tt: "int (length (results t)) < targetCount \<and> attempts t < maxAttempts"
      using len att by simp
    have step: "sameRun p q (attempt p a mp prof n rnd s) (attempt q b mq prof n rnd t)"
      unfolding "1.prems"(1) "1.prems"(2)
      using mi "1.prems"(4) by (rule sameRun_attempt)
    have "sameRun p q
        (generateLoop p a mp prof n rnd targetCount maxAttempts (attempt p a mp prof n rnd s))
        (generateLoop q b mq prof n rnd targetCount maxAttempts (attempt q b mq prof n rnd t))"
      using True "1.prems"(1-3) step by (rule "1.IH")
    moreover have "generateLoop p a mp prof n rnd targetCount maxAttempts s =
        generateLoop p a mp prof n rnd targetCount maxAttempts (attempt p a mp prof n rnd s)"
      using True by (subst generateLoop.simps) simp
    moreover have "generateLoop q b mq prof n rnd targetCount maxAttempts t =
        generateLoop q b mq prof n rnd targetCount maxAttempts (attempt q b mq prof n rnd t)"
      using Tt by (subst generateLoop.simps) simp
    ultimately show ?thesis by simp
  next
    case False
    then have Ft: "\<not> (int (length (results t)) < targetCount \<and> attempts t < maxAttempts)"
      using len att by simp
    have "generateLoop p a mp prof n rnd targetCount maxAttempts s = s"
      using False by (subst generateLoop.simps) auto
    moreover have "generateLoop q b mq prof n rnd targetCount maxAttempts t = t"
      using Ft by (subst generateLoop.simps) auto
    ultimately show ?thesis using "1.prems"(4) by simp
  qed
qed

lemma map_wildcardDigits_splice:
  assumes "\<forall>c \<in> set cs. length c = length (missingIndicesOf p)"
    and "map number rs = map (splice p (missingIndicesOf p)) cs"
  shows "map (\<lambda>r. wildcardDigits p (number r)) rs = cs"
proof -
  have "map (\<lambda>r. wildcardDigits p (number r)) rs = map (wildcardDigits p) (map number rs)"
    by simp
  also have "\<dots> = map (\<lambda>c. wildcardDigits p (splice p (missingIndicesOf p) c)) cs"
    unfolding assms(2) by simp
  also have "\<dots> = cs"
    using assms(1) by (intro map_idI) (simp add: wildcardDigits_splice)
  finally show ?thesis .
qed

lemma sameRun_wildcards:
  assumes "missingIndicesOf p = missingIndicesOf q" and "sameRun p q s t"
  shows "map (\<lambda>r. wildcardDigits p (number r)) (results s) =
         map (\<lambda>r. wildcardDigits q (number r)) (results t)"
proof -
  from assms(2) obtain cs where cs: "\<forall>c \<in> set cs. length c = length (missingIndicesOf p)"
    "map number (results s) = map (splice p (missingIndicesOf p)) cs"
    "map number (results t) = map (splice q (missingIndicesOf q)) cs"
    unfolding sameRun_def by blast
  have csq: "\<forall>c \<in> set cs. length c = length (missingIndicesOf q)"
    using cs(1) unfolding assms(1) .
  show ?thesis
    unfolding map_wildcardDigits_splice [OF cs(1) cs(2)] map_wildcardDigits_splice [OF csq cs(3)]
    by (rule refl)
qed

lemma generateRun_same_wildcards:
  assumes mi: "missingIndicesOf p = missingIndicesOf q"
    and ex: "excludedValues excludeSet = {||}"
  shows "map (\<lambda>r. wildcardDigits p (number r))
      (results (generateRun rnd \<lparr>pattern = p, count = k, contactNamePrefix = a\<rparr> options excludeSet))
    = map (\<lambda>r. wildcardDigits q (number r))
      (results (generateRun rnd \<lparr>pattern = q, count = k, contactNamePrefix = b\<rparr> options excludeSet))"
proof -
  let ?init = "\<lparr>results = [], generatedSet = {||}, attempts = 0, randomPos = 0\<rparr>"
  have T: "targetCountOf \<lparr>pattern = p, count = k, contactNamePrefix = a\<rparr> excludeSet =
      targetCountOf \<lparr>pattern = q, count = k, contactNamePrefix = b\<rparr> excludeSet"
    by (simp add: targetCountOf_def mi)
  have i: "sameRun p q ?init ?init"
    unfolding sameRun_def by (intro conjI exI [of _ "[]"]) simp_all
  show ?thesis
    unfolding generateRun_def Let_def ex T
    by (simp only: GenerationConfig.simps mi [symmetric])
       (rule sameRun_wildcards [OF mi sameRun_loop [OF refl refl mi i], unfolded mi [symmetric]])
qed

subsection \<open>Digit strings as numbers\<close>

lemma isDigit_of_char: "isDigit c \<Longrightarrow> 48 \<le> (of_char c :: nat) \<and> (of_char c :: nat) \<le> 57"
  by (auto simp: isDigit_def)

lemma decimalValue_bound:
  "\<forall>c \<in> set s. isDigit c \<Longrightarrow> decimalValue s < 10 ^ length s"
proof (induction s)
  case Nil
  show ?case by simp
next
  case (Cons c cs)
  have d: "(of_char c :: nat) - 48 \<le> 9" using isDigit_of_char [of c] Cons.prems by auto
  have "decimalValue cs < 10 ^ length cs" using Cons by simp
  then have "decimalValue (c # cs) < (of_char c - 48) * 10 ^ length cs + 10 ^ length cs"
    by simp
  also have "\<dots> = ((of_char c - 48) + 1) * 10 ^ length cs" by (simp add: algebra_simps)
  also have "\<dots> \<le> 10 * 10 ^ length cs"
    using d by (intro mult_right_mono) simp_all
  finally show ?case by simp
qed

lemma decimalValue_less:
  "length a = length b \<Longrightarrow> \<forall>c \<in> set a. isDigit c \<Longrightarrow> \<forall>c \<in> set b. isDigit c \<Longrightarrow> a < b \<Longrightarrow>
   decimalValue a < decimalValue b"
proof (induction a b rule: list_induct2)
  case Nil
  then show ?case by simp
next
  case (Cons x xs y ys)
  from Cons.prems(3) consider "x < y" | "x = y" "xs < ys" by auto
  then show ?case
  proof cases
    case 1
    have dx: "48 \<le> (of_char x :: nat)" using isDigit_of_char [of x] Cons.prems(1) by simp
    have "(of_char x :: nat) < of_char y" using 1 by (simp add: less_char_def)
    then have le: "(of_char x - 48) + 1 \<le> (of_char y :: nat) - 48" using dx by simp
    have "decimalValue xs < 10 ^ length xs"
      using Cons.prems(1) by (intro decimalValue_bound) simp
    then have "decimalValue (x # xs) < (of_char x - 48) * 10 ^ length xs + 10 ^ length xs"
      by simp
    also have "\<dots> = ((of_char x - 48) + 1) * 10 ^ length xs" by (simp add: algebra_simps)
    also have "\<dots> \<le> (of_char y - 48) * 10 ^ length xs"
      using le by (intro mult_right_mono) simp_all
    also have "\<dots> \<le> decimalValue (y # ys)" using Cons.hyps by simp
    finally show ?thesis .
  next
    case 2
    then show ?thesis using Cons by simp
  qed
qed

lemma decimalValue_mono:
  "length a = length b \<Longrightarrow> \<forall>c \<in> set a. isDigit c \<Longrightarrow> \<forall>c \<in> set b. isDigit c \<Longrightarrow> a \<le> b \<Longrightarrow>
   decimalValue a \<le> decimalValue b"
  using decimalValue_less [of a b] by (cases "a = b") (auto simp: less_le)

lemma sorted_map_mono:
  assumes "sorted (map f xs)"
    and "\<And>x y. x \<in> set xs \<Longrightarrow> y \<in> set xs \<Longrightarrow> f x \<le> f y \<Longrightarrow> g x \<le> g y"
  shows "sorted (map g xs)"
  using assms by (induction xs) auto

section \<open>The claims\<close>

text \<open>
  \<^bold>\<open>C1.\<close> For every call of \<open>generatePhoneNumbers\<close> (any pattern, count, density,
  exclusion set and any outcome of the random draws), no two returned entities have the same
  \<open>number\<close>, and no returned \<open>number\<close> is a member of the exclusion set.
\<close>

theorem C1_unique:
  "distinct (map number (generatePhoneNumbers rnd config options excludeSet)) \<and>
   set (map number (generatePhoneNumbers rnd config options excludeSet))
     \<inter> fset (excludedValues excludeSet) = {}"
proof -
  let ?res = "generatePhoneNumbers rnd config options excludeSet"
  let ?st = "generateRun rnd config options excludeSet"
  have inv: "uniqueInv (excludedValues excludeSet) ?st" by (rule uniqueInv_run)
  have "mset (map number ?res) = mset (map number (results ?st))"
    by (simp add: mset_generatePhoneNumbers)
  then have "distinct (map number ?res) = distinct (map number (results ?st))"
    by (rule mset_eq_imp_distinct_iff)
  moreover have "set (map number ?res) = set (map number (results ?st))"
    by (simp add: set_generatePhoneNumbers)
  ultimately show ?thesis using inv by (simp add: uniqueInv_def)
qed

text \<open>
  \<^bold>\<open>C2.\<close> When the pattern passes \<open>validatePattern\<close>, every returned \<open>number\<close>
  has length 10 and agrees with the pattern at every position that is not a wildcard;
  moreover all its characters are digits.
\<close>

theorem C2_shape:
  assumes "validatePattern (pattern config) options = None"
    and "r \<in> set (generatePhoneNumbers rnd config options excludeSet)"
  shows "length (number r) = 10 \<and>
    (\<forall>i < 10. pattern config ! i \<noteq> CHR ''_'' \<longrightarrow> number r ! i = pattern config ! i) \<and>
    (\<forall>ch \<in> set (number r). isDigit ch)"
proof -
  have "length (pattern config) = 10"
    using assms(1) by (rule validatePattern_None(1))
  then have len: "length (number r) = 10"
    using generated_fixed(1) [OF assms(2)] by simp
  have fixed: "\<forall>i < 10. pattern config ! i \<noteq> CHR ''_'' \<longrightarrow> number r ! i = pattern config ! i"
    using generated_fixed(2) [OF assms(2)] by blast
  have digits: "\<forall>ch \<in> set (number r). isDigit ch"
    using assms by (rule generated_digits)
  from len fixed digits show ?thesis by (intro conjI)
qed

theorem C2_shape_witness:
  "validatePattern ''05______1_'' None = None \<and>
   generatePhoneNumbers (\<lambda>i. i)
      \<lparr>pattern = ''05______1_'', count = 1, contactNamePrefix = ''X''\<rparr> None None
     = [\<lparr>id' = ''1'', number = ''0501346719'', name = ''X'', isSaved = Some False\<rparr>] \<and>
   length ''0501346719'' = 10 \<and>
   ''0501346719'' ! 8 = ''05______1_'' ! 8 \<and>
   isDigit (''0501346719'' ! 9)"
proof -
  let ?cfg = "\<lparr>pattern = ''05______1_'', count = 1, contactNamePrefix = ''X''\<rparr>"
  let ?r = "\<lparr>id' = ''1'', number = ''0501346719'', name = ''X'', isSaved = Some False\<rparr>"
  have v: "validatePattern (pattern ?cfg) None = None" by code_simp
  have g: "generatePhoneNumbers (\<lambda>i. i) ?cfg None None = [?r]" by code_simp
  have m: "?r \<in> set (generatePhoneNumbers (\<lambda>i. i) ?cfg None None)"
    unfolding g by simp
  have f: "pattern ?cfg ! 8 \<noteq> CHR ''_''" by simp
  have e: "''0501346719'' ! 9 \<in> set (number ?r)" by simp
  have q: "length (number ?r) = 10"
    and w: "\<forall>i<10. pattern ?cfg ! i \<noteq> CHR ''_'' \<longrightarrow> number ?r ! i = pattern ?cfg ! i"
    and d: "\<forall>ch \<in> set (number ?r). isDigit ch"
    using C2_shape [OF v m] by blast+
  have a: "length ''0501346719'' = 10" using q by simp
  have b: "''0501346719'' ! 8 = ''05______1_'' ! 8" using w f by simp
  have c: "isDigit (''0501346719'' ! 9)" using d e by blast
  have v': "validatePattern ''05______1_'' None = None" using v by simp
  from v' g a b c show ?thesis by (intro conjI)
qed

text \<open>
  \<^bold>\<open>C3.\<close> \<open>validatePattern\<close> makes four checks in this order and stops at the first
  that fails: the empty pattern gives \<open>EmptyInput\<close>; a length other than 10 gives
  \<open>InvalidLength\<close> with the length; a character outside the digits and \<open>_\<close> gives
  \<open>InvalidCharacters\<close> with the offending characters, each once, in the order of their
  first appearance; no \<open>_\<close> gives \<open>NoVariableSlots\<close>; otherwise the result is
  \<open>None\<close>. In particular \<open>"05_____"\<close> gives \<open>InvalidLength 7\<close>.
\<close>

theorem C3_validate:
  "validatePattern p options =
     (if p = [] then Some EmptyInput
      else if length p \<noteq> 10 then Some (InvalidLength (length p))
      else if \<exists>c \<in> set p. \<not> allowedChar c then Some (InvalidCharacters (offendingFirstSeen p))
      else if CHR ''_'' \<notin> set p then Some NoVariableSlots
      else None) \<and>
   distinct (offendingFirstSeen p) \<and>
   set (offendingFirstSeen p) = {c \<in> set p. \<not> allowedChar c} \<and>
   validatePattern ''05_____'' options = Some (InvalidLength 7) \<and>
   validatePattern ''0512345678'' options = Some NoVariableSlots \<and>
   validatePattern ''05b__a_b_c'' options = Some (InvalidCharacters ''bac'')"
proof -
  have e: "(matchInvalid p \<noteq> []) = (\<exists>c \<in> set p. \<not> allowedChar c)"
    by (auto simp: matchInvalid_def filter_empty_conv)
  have a: "validatePattern p options =
     (if p = [] then Some EmptyInput
      else if length p \<noteq> 10 then Some (InvalidLength (length p))
      else if \<exists>c \<in> set p. \<not> allowedChar c then Some (InvalidCharacters (offendingFirstSeen p))
      else if CHR ''_'' \<notin> set p then Some NoVariableSlots
      else None)"
    unfolding validatePattern_def Let_def e arrayFromSet_matchInvalid by simp
  have b: "distinct (offendingFirstSeen p)"
    unfolding arrayFromSet_matchInvalid [symmetric] by (rule distinct_arrayFromSet)
  have c: "set (offendingFirstSeen p) = {c \<in> set p. \<not> allowedChar c}"
    unfolding arrayFromSet_matchInvalid [symmetric]
    by (auto simp: set_arrayFromSet matchInvalid_def)
  have d1: "validatePattern ''05_____'' options = Some (InvalidLength 7)"
    by (simp add: validatePattern_def)
  have d2: "validatePattern ''0512345678'' options = Some NoVariableSlots"
    by code_simp
  have d3: "validatePattern ''05b__a_b_c'' options = Some (InvalidCharacters ''bac'')"
    by code_simp
  from a b c d1 d2 d3 show ?thesis by (intro conjI)
qed

text \<open>
  \<^bold>\<open>C4.\<close> The number of returned entities is at most
  \<open>min(count, max(0, 10^numUnknowns - |excludeSet|))\<close>, for every count the contract of
  the generator admits (\<open>count \<ge> 0\<close>); and whenever this target is not positive, the
  returned list is empty, whatever the count.
\<close>

theorem C4_cap:
  "(0 \<le> count config \<longrightarrow>
      int (length (generatePhoneNumbers rnd config options excludeSet))
        \<le> min (count config)
            (max 0 (10 ^ length (missingIndicesOf (pattern config)) - int (excludeSize excludeSet)))) \<and>
   (min (count config)
      (max 0 (10 ^ length (missingIndicesOf (pattern config)) - int (excludeSize excludeSet))) \<le> 0
     \<longrightarrow> generatePhoneNumbers rnd config options excludeSet = [])"
proof -
  let ?T = "targetCountOf config excludeSet"
  have "int (length (results (generateRun rnd config options excludeSet))) \<le> max 0 ?T"
    using boundInv_run [of config excludeSet rnd options] by (simp add: boundInv_def)
  then have len: "int (length (generatePhoneNumbers rnd config options excludeSet)) \<le> max 0 ?T"
    by (simp add: length_generatePhoneNumbers)
  have "0 \<le> ?T" if "0 \<le> count config"
    using that by (simp add: targetCountOf_eq)
  moreover have "generatePhoneNumbers rnd config options excludeSet = []" if "?T \<le> 0"
    using len that by simp
  ultimately show ?thesis
    using len unfolding targetCountOf_eq by auto
qed

theorem C4_cap_witness:
  "int (length (generatePhoneNumbers (\<lambda>i. i)
      \<lparr>pattern = ''012345678_'', count = 1000, contactNamePrefix = ''X''\<rparr> None
      (Some {|''0123456780'', ''0123456781'', ''0123456782'', ''0123456783'', ''0123456784'',
              ''0123456785'', ''0123456786'', ''0123456787'', ''0123456788''|}))) \<le> 1 \<and>
   map number (generatePhoneNumbers (\<lambda>i. i)
      \<lparr>pattern = ''012345678_'', count = 1000, contactNamePrefix = ''X''\<rparr> None
      (Some {|''0123456780'', ''0123456781'', ''0123456782'', ''0123456783'', ''0123456784'',
              ''0123456785'', ''0123456786'', ''0123456787'', ''0123456788''|}))
     = [''0123456789''] \<and>
   generatePhoneNumbers (\<lambda>i. i)
      \<lparr>pattern = ''012345678_'', count = 0, contactNamePrefix = ''X''\<rparr> None None = []"
proof -
  let ?cfg = "\<lparr>pattern = ''012345678_'', count = 1000, contactNamePrefix = ''X''\<rparr>"
  let ?zero = "\<lparr>pattern = ''012345678_'', count = 0, contactNamePrefix = ''X''\<rparr>"
  let ?ex = "Some {|''0123456780'', ''0123456781'', ''0123456782'', ''0123456783'',
     ''0123456784'', ''0123456785'', ''0123456786'', ''0123456787'', ''0123456788''|}"
  have c: "0 \<le> count ?cfg" by simp
  have t: "min (count ?cfg)
      (max 0 (10 ^ length (missingIndicesOf (pattern ?cfg)) - int (excludeSize ?ex))) = 1"
    by code_simp
  have t0: "min (count ?zero)
      (max 0 (10 ^ length (missingIndicesOf (pattern ?zero)) - int (excludeSize None))) \<le> 0"
    by code_simp
  have v: "map number (generatePhoneNumbers (\<lambda>i. i) ?cfg None ?ex) = [''0123456789'']"
    by code_simp
  have "int (length (generatePhoneNumbers (\<lambda>i. i) ?cfg None ?ex))
      \<le> min (count ?cfg)
          (max 0 (10 ^ length (missingIndicesOf (pattern ?cfg)) - int (excludeSize ?ex)))"
    using C4_cap [of ?cfg "\<lambda>i. i" None ?ex] c by blast
  then have a: "int (length (generatePhoneNumbers (\<lambda>i. i) ?cfg None ?ex)) \<le> 1"
    by (simp only: t)
  have b: "generatePhoneNumbers (\<lambda>i. i) ?zero None None = []"
    using C4_cap [of ?zero "\<lambda>i. i" None None] t0 by blast
  from a v b show ?thesis by (intro conjI)
qed

text \<open>
  \<^bold>\<open>C5\<close> (as amended). The labels of the returned entities are the decimal numerals of
  \<open>s + 1, ..., s + n\<close>, each borne by one entity, where \<open>s\<close> is the size of the
  exclusion set and \<open>n\<close> the number of returned entities. They are \<open>"1", ..., "n"\<close>
  only when the exclusion set is empty or absent.
\<close>

theorem C5_ids:
  "mset (map id' (generatePhoneNumbers rnd config options excludeSet)) =
   mset (map (\<lambda>i. toString (excludeSize excludeSet + i))
           [1..<Suc (length (generatePhoneNumbers rnd config options excludeSet))])"
proof -
  let ?st = "generateRun rnd config options excludeSet"
  have a: "mset (map id' (generatePhoneNumbers rnd config options excludeSet)) =
        mset (map id' (results ?st))"
    by (simp add: mset_generatePhoneNumbers)
  have b: "map id' (results ?st) =
       map (\<lambda>i. toString (excludeSize excludeSet + i)) [1..<Suc (length (results ?st))]"
    using idInv_run [of excludeSet rnd config options] by (simp only: idInv_def)
  show ?thesis
    unfolding a length_generatePhoneNumbers by (rule arg_cong [OF b])
qed

text \<open>
  The claim as stated fails: with one excluded value the two labels are \<open>"2"\<close> and
  \<open>"3"\<close>.
\<close>

theorem C5_ids_counterexample:
  "map id' (generatePhoneNumbers (\<lambda>i. i)
      \<lparr>pattern = ''012345678_'', count = 2, contactNamePrefix = ''X''\<rparr> None
      (Some {|''0123456780''|})) = [''2'', ''3''] \<and>
   ''1'' \<notin> set (map id' (generatePhoneNumbers (\<lambda>i. i)
      \<lparr>pattern = ''012345678_'', count = 2, contactNamePrefix = ''X''\<rparr> None
      (Some {|''0123456780''|})))"
proof -
  have e: "map id' (generatePhoneNumbers (\<lambda>i. i)
      \<lparr>pattern = ''012345678_'', count = 2, contactNamePrefix = ''X''\<rparr> None
      (Some {|''0123456780''|})) = [''2'', ''3'']"
    by code_simp
  show ?thesis unfolding e by simp
qed

text \<open>
  \<^bold>\<open>C6.\<close> In the strict tier (density at most 0.4) and with 8 wildcards, no digit
  occurs more than 3 times among the wildcard positions of a returned value, and no two
  consecutive wildcard slots hold the same digit.
\<close>

theorem C6_strict:
  assumes "densityOf options \<le> 0.4"
    and "length (missingIndicesOf (pattern config)) = 8"
    and "r \<in> set (generatePhoneNumbers rnd config options excludeSet)"
  shows "(\<forall>ch. count_list (wildcardDigits (pattern config) (number r)) ch \<le> 3) \<and>
    (\<forall>j. j + 1 < 8 \<longrightarrow>
       wildcardDigits (pattern config) (number r) ! j
         \<noteq> wildcardDigits (pattern config) (number r) ! (j + 1))"
proof -
  let ?p = "pattern config"
  let ?mi = "missingIndicesOf ?p"
  from assms(3) obtain c where c: "length c = length ?mi"
    "goodCandidate (constraintProfile (densityOf options) (length ?mi)) c"
    "number r = splice ?p ?mi c"
    by (rule generated_candidate)
  have w: "wildcardDigits ?p (number r) = c"
    unfolding c(3) using c(1) by (rule wildcardDigits_splice)
  have good: "goodCandidate \<lparr>maxDigitFreq = 3, allowAdjacentDuplicates = False,
      allowSequences = False\<rparr> c"
    using c(2) strict_profile [OF assms(1)] assms(2) by simp
  have "count_list c ch \<le> 3" for ch
  proof (cases "ch \<in> set c")
    case True
    with good show ?thesis by (simp add: goodCandidate_def)
  next
    case False
    then show ?thesis by simp
  qed
  moreover have "c ! j \<noteq> c ! (j + 1)" if "j + 1 < 8" for j
    using good that c(1) assms(2) by (simp add: goodCandidate_def)
  ultimately show ?thesis unfolding w by blast
qed

theorem C6_strict_witness:
  "densityOf None \<le> 0.4 \<and>
   length (missingIndicesOf ''05________'') = 8 \<and>
   generatePhoneNumbers (\<lambda>i. i div 2)
      \<lparr>pattern = ''05________'', count = 1, contactNamePrefix = ''X''\<rparr> None None
     = [\<lparr>id' = ''1'', number = ''0501346790'', name = ''X'', isSaved = Some False\<rparr>] \<and>
   wildcardDigits ''05________'' ''0501346790'' = ''01346790'' \<and>
   count_list ''01346790'' CHR ''0'' \<le> 3 \<and>
   ''01346790'' ! 0 \<noteq> ''01346790'' ! 1"
proof -
  let ?cfg = "\<lparr>pattern = ''05________'', count = 1, contactNamePrefix = ''X''\<rparr>"
  let ?r = "\<lparr>id' = ''1'', number = ''0501346790'', name = ''X'', isSaved = Some False\<rparr>"
  have d: "densityOf None \<le> 0.4" by (simp add: densityOf_def)
  have l: "length (missingIndicesOf (pattern ?cfg)) = 8" by code_simp
  have g: "generatePhoneNumbers (\<lambda>i. i div 2) ?cfg None None = [?r]" by code_simp
  have m: "?r \<in> set (generatePhoneNumbers (\<lambda>i. i div 2) ?cfg None None)"
    unfolding g by simp
  have w: "wildcardDigits (pattern ?cfg) (number ?r) = ''01346790''" by code_simp
  have f: "\<forall>ch. count_list (wildcardDigits (pattern ?cfg) (number ?r)) ch \<le> 3"
    and a: "\<forall>j. j + 1 < 8 \<longrightarrow>
       wildcardDigits (pattern ?cfg) (number ?r) ! j
         \<noteq> wildcardDigits (pattern ?cfg) (number ?r) ! (j + 1)"
    using C6_strict [OF d l m] by blast+
  have f': "count_list ''01346790'' CHR ''0'' \<le> 3"
    using f unfolding w by blast
  have "(0::nat) + 1 < 8" by simp
  with a have "wildcardDigits (pattern ?cfg) (number ?r) ! 0
      \<noteq> wildcardDigits (pattern ?cfg) (number ?r) ! (0 + 1)"
    by blast
  then have a': "''01346790'' ! 0 \<noteq> ''01346790'' ! 1"
    unfolding w by simp
  have l': "length (missingIndicesOf ''05________'') = 8" using l by simp
  have w': "wildcardDigits ''05________'' ''0501346790'' = ''01346790''" using w by simp
  from d l' g w' f' a' show ?thesis by (intro conjI)
qed

text \<open>
  \<^bold>\<open>C7.\<close> The returned list is sorted ascending by \<open>number\<close>, in the
  lexicographic order of the strings; and for a pattern that \<open>validatePattern\<close> accepts,
  where all values are strings of 10 digits, this is the ascending order of the numbers they
  denote.
\<close>

theorem C7_sorted:
  "sorted (map number (generatePhoneNumbers rnd config options excludeSet)) \<and>
   (validatePattern (pattern config) options = None \<longrightarrow>
      sorted (map (\<lambda>r. decimalValue (number r))
        (generatePhoneNumbers rnd config options excludeSet)))"
proof -
  let ?res = "generatePhoneNumbers rnd config options excludeSet"
  have lex: "sorted (map number ?res)"
    unfolding generatePhoneNumbers_def by (rule sorted_sortBy_number)
  have "sorted (map (\<lambda>r. decimalValue (number r)) ?res)"
    if v: "validatePattern (pattern config) options = None"
  proof (rule sorted_map_mono [OF lex])
    fix x y
    assume x: "x \<in> set ?res" and y: "y \<in> set ?res" and le: "number x \<le> number y"
    have "length (number x) = length (number y)"
      using generated_fixed(1) [OF x] generated_fixed(1) [OF y] by simp
    then show "decimalValue (number x) \<le> decimalValue (number y)"
      using generated_digits [OF v x] generated_digits [OF v y] le
      by (rule decimalValue_mono)
  qed
  with lex show ?thesis by blast
qed

theorem C7_sorted_witness:
  "validatePattern ''012345678_'' None = None \<and>
   map number (generatePhoneNumbers (\<lambda>i. 9 - i)
      \<lparr>pattern = ''012345678_'', count = 2, contactNamePrefix = ''X''\<rparr> None None)
     = [''0123456788'', ''0123456789''] \<and>
   map id' (generatePhoneNumbers (\<lambda>i. 9 - i)
      \<lparr>pattern = ''012345678_'', count = 2, contactNamePrefix = ''X''\<rparr> None None)
     = [''2'', ''1''] \<and>
   sorted (map (\<lambda>r. decimalValue (number r)) (generatePhoneNumbers (\<lambda>i. 9 - i)
      \<lparr>pattern = ''012345678_'', count = 2, contactNamePrefix = ''X''\<rparr> None None)) \<and>
   map (\<lambda>r. decimalValue (number r)) (generatePhoneNumbers (\<lambda>i. 9 - i)
      \<lparr>pattern = ''012345678_'', count = 2, contactNamePrefix = ''X''\<rparr> None None)
     = [123456788, 123456789]"
proof -
  let ?cfg = "\<lparr>pattern = ''012345678_'', count = 2, contactNamePrefix = ''X''\<rparr>"
  let ?rnd = "\<lambda>i::nat. 9 - i"
  have v: "validatePattern (pattern ?cfg) None = None" by code_simp
  have n: "map number (generatePhoneNumbers ?rnd ?cfg None None)
     = [''0123456788'', ''0123456789'']"
    by code_simp
  have i: "map id' (generatePhoneNumbers ?rnd ?cfg None None) = [''2'', ''1'']"
    by code_simp
  have "map (\<lambda>r. decimalValue (number r)) (generatePhoneNumbers ?rnd ?cfg None None)
     = map decimalValue (map number (generatePhoneNumbers ?rnd ?cfg None None))"
    by simp
  also have "\<dots> = [123456788, 123456789]"
    unfolding n by simp
  finally have d: "map (\<lambda>r. decimalValue (number r))
      (generatePhoneNumbers ?rnd ?cfg None None) = [123456788, 123456789]" .
  have s: "sorted (map (\<lambda>r. decimalValue (number r))
      (generatePhoneNumbers ?rnd ?cfg None None))"
    using C7_sorted [of ?rnd ?cfg None None] v by blast
  have v': "validatePattern ''012345678_'' None = None" using v by simp
  from v' n i s d show ?thesis by (intro conjI)
qed

text \<open>
  \<^bold>\<open>C8.\<close> The loop ends: \<open>generateLoop\<close> is a total function, its termination
  proved from the attempt counter, which every iteration increases by one. For every count the
  contract admits (\<open>count \<ge> 0\<close>) the loop makes at most \<open>targetCount * 200 + 5000\<close>
  iterations, and it ends with the counter at that cap or with \<open>targetCount\<close> accepted
  entities.
\<close>

theorem C8_bounded:
  "attempts (attempt p namePrefix missingIndices prof initialSize rnd' st) = attempts st + 1 \<and>
   (0 \<le> count config \<longrightarrow>
     0 \<le> attempts (generateRun rnd config options excludeSet) \<and>
     attempts (generateRun rnd config options excludeSet)
       \<le> min (count config)
            (max 0 (10 ^ length (missingIndicesOf (pattern config)) - int (excludeSize excludeSet)))
          * 200 + 5000 \<and>
     (attempts (generateRun rnd config options excludeSet)
        = min (count config)
            (max 0 (10 ^ length (missingIndicesOf (pattern config)) - int (excludeSize excludeSet)))
          * 200 + 5000 \<or>
      int (length (results (generateRun rnd config options excludeSet)))
        = min (count config)
            (max 0 (10 ^ length (missingIndicesOf (pattern config)) - int (excludeSize excludeSet)))))"
proof -
  let ?T = "targetCountOf config excludeSet"
  let ?st = "generateRun rnd config options excludeSet"
  have step: "attempts (attempt p namePrefix missingIndices prof initialSize rnd' st)
      = attempts st + 1"
    by (rule attempts_attempt)
  have b: "boundInv ?T (?T * 200 + 5000) ?st" by (rule boundInv_run)
  have e: "\<not> (int (length (results ?st)) < ?T \<and> attempts ?st < ?T * 200 + 5000)"
    unfolding generateRun_def Let_def by (rule generateLoop_exit)
  have "0 \<le> attempts ?st \<and> attempts ?st \<le> ?T * 200 + 5000 \<and>
      (attempts ?st = ?T * 200 + 5000 \<or> int (length (results ?st)) = ?T)"
    if c: "0 \<le> count config"
  proof -
    have T: "0 \<le> ?T" using c by (simp add: targetCountOf_eq)
    show ?thesis using T b e unfolding boundInv_def by auto
  qed
  with step show ?thesis unfolding targetCountOf_eq by blast
qed

theorem C8_bounded_witness:
  "attempts (generateRun (\<lambda>i. i)
      \<lparr>pattern = ''012345678_'', count = 1000, contactNamePrefix = ''X''\<rparr> None
      (Some {|''0123456780'', ''0123456781'', ''0123456782'', ''0123456783'', ''0123456784'',
              ''0123456785'', ''0123456786'', ''0123456787'', ''0123456788''|})) \<le> 5200 \<and>
   attempts (generateRun (\<lambda>i. i)
      \<lparr>pattern = ''012345678_'', count = 1000, contactNamePrefix = ''X''\<rparr> None
      (Some {|''0123456780'', ''0123456781'', ''0123456782'', ''0123456783'', ''0123456784'',
              ''0123456785'', ''0123456786'', ''0123456787'', ''0123456788''|})) = 10"
proof -
  let ?cfg = "\<lparr>pattern = ''012345678_'', count = 1000, contactNamePrefix = ''X''\<rparr>"
  let ?ex = "Some {|''0123456780'', ''0123456781'', ''0123456782'', ''0123456783'',
     ''0123456784'', ''0123456785'', ''0123456786'', ''0123456787'', ''0123456788''|}"
  have c: "0 \<le> count ?cfg" by simp
  have t: "min (count ?cfg)
      (max 0 (10 ^ length (missingIndicesOf (pattern ?cfg)) - int (excludeSize ?ex))) = 1"
    by code_simp
  have v: "attempts (generateRun (\<lambda>i. i) ?cfg None ?ex) = 10"
    by code_simp
  have "attempts (generateRun (\<lambda>i. i) ?cfg None ?ex)
      \<le> min (count ?cfg)
          (max 0 (10 ^ length (missingIndicesOf (pattern ?cfg)) - int (excludeSize ?ex)))
        * 200 + 5000"
    using C8_bounded [of _ _ _ _ _ _ _ ?cfg "\<lambda>i. i" None ?ex] c by blast
  then have "attempts (generateRun (\<lambda>i. i) ?cfg None ?ex) \<le> 1 * 200 + 5000"
    by (simp only: t)
  then have a: "attempts (generateRun (\<lambda>i. i) ?cfg None ?ex) \<le> 5200"
    by simp
  from a v show ?thesis by (intro conjI)
qed

text \<open>
  \<^bold>\<open>C9.\<close> The target subtracts the whole size of the exclusion set: when that size is
  at least \<open>10^numUnknowns\<close> the result is empty, and in general the result has at most
  \<open>max(0, 10^numUnknowns - |excludeSet|)\<close> entities, whether or not the excluded values
  match the pattern. The instances after the theorem exclude only values that no draw can
  produce: ten of them leave nothing of the five values asked for, seven leave three.
\<close>

theorem C9_exclusion_size:
  "(10 ^ length (missingIndicesOf (pattern config)) \<le> int (excludeSize excludeSet)
      \<longrightarrow> generatePhoneNumbers rnd config options excludeSet = []) \<and>
   int (length (generatePhoneNumbers rnd config options excludeSet))
     \<le> max 0 (10 ^ length (missingIndicesOf (pattern config)) - int (excludeSize excludeSet))"
proof -
  let ?T = "targetCountOf config excludeSet"
  have "int (length (results (generateRun rnd config options excludeSet))) \<le> max 0 ?T"
    using boundInv_run [of config excludeSet rnd options] by (simp add: boundInv_def)
  then have len: "int (length (generatePhoneNumbers rnd config options excludeSet)) \<le> max 0 ?T"
    by (simp add: length_generatePhoneNumbers)
  then show ?thesis
    unfolding targetCountOf_eq by auto
qed

theorem C9_exclusion_size_witness:
  "generatePhoneNumbers (\<lambda>i. i)
      \<lparr>pattern = ''012345678_'', count = 5, contactNamePrefix = ''X''\<rparr> None
      (Some {|''9999999990'', ''9999999991'', ''9999999992'', ''9999999993'', ''9999999994'',
              ''9999999995'', ''9999999996'', ''9999999997'', ''9999999998'', ''9999999999''|})
     = [] \<and>
   map number (generatePhoneNumbers (\<lambda>i. i)
      \<lparr>pattern = ''012345678_'', count = 5, contactNamePrefix = ''X''\<rparr> None None)
     = [''0123456780'', ''0123456781'', ''0123456782'', ''0123456783'', ''0123456784''] \<and>
   map number (generatePhoneNumbers (\<lambda>i. i)
      \<lparr>pattern = ''012345678_'', count = 5, contactNamePrefix = ''X''\<rparr> None
      (Some {|''9999999990'', ''9999999991'', ''9999999992'', ''9999999993'', ''9999999994'',
              ''9999999995'', ''9999999996''|}))
     = [''0123456780'', ''0123456781'', ''0123456782'']"
proof -
  let ?cfg = "\<lparr>pattern = ''012345678_'', count = 5, contactNamePrefix = ''X''\<rparr>"
  let ?seven = "Some {|''9999999990'', ''9999999991'', ''9999999992'', ''9999999993'',
     ''9999999994'', ''9999999995'', ''9999999996''|}"
  let ?ex = "Some {|''9999999990'', ''9999999991'', ''9999999992'', ''9999999993'',
     ''9999999994'', ''9999999995'', ''9999999996'', ''9999999997'', ''9999999998'',
     ''9999999999''|}"
  have h: "10 ^ length (missingIndicesOf (pattern ?cfg)) \<le> int (excludeSize ?ex)"
    by code_simp
  have v: "map number (generatePhoneNumbers (\<lambda>i. i) ?cfg None None)
     = [''0123456780'', ''0123456781'', ''0123456782'', ''0123456783'', ''0123456784'']"
    by code_simp
  have a: "generatePhoneNumbers (\<lambda>i. i) ?cfg None ?ex = []"
    using C9_exclusion_size [of ?cfg ?ex "\<lambda>i. i" None] h by blast
  have w: "map number (generatePhoneNumbers (\<lambda>i. i) ?cfg None ?seven)
     = [''0123456780'', ''0123456781'', ''0123456782'']"
    by code_simp
  from a v w show ?thesis by (intro conjI)
qed

text \<open>
  \<^bold>\<open>C10.\<close> The checks of a slot read the digits already placed in the wildcard slots and
  nothing of the pattern. When adjacent duplicates and sequences are not allowed (density at
  most 0.55), consecutive wildcard slots hold different digits and three consecutive wildcard
  slots hold no run, in the order of the wildcards, whatever fixed digits lie between them.
  Two patterns with the same wildcard positions get the same wildcard digits from the same
  draws, when nothing is excluded. So a fixed digit can repeat its neighbour or complete a
  run in the returned value: in the strict tier \<open>45________\<close> can give \<open>4558147036\<close>, and
  \<open>34________\<close> can give \<open>3458147036\<close>.
\<close>

theorem C10_wildcards_only:
  "(densityOf options \<le> 0.55 \<longrightarrow>
    r \<in> set (generatePhoneNumbers rnd config options excludeSet) \<longrightarrow>
      (\<forall>j. j + 1 < length (missingIndicesOf (pattern config)) \<longrightarrow>
         wildcardDigits (pattern config) (number r) ! j
           \<noteq> wildcardDigits (pattern config) (number r) ! (j + 1)) \<and>
      (\<forall>j. j + 2 < length (missingIndicesOf (pattern config)) \<longrightarrow>
         \<not> isRun (wildcardDigits (pattern config) (number r) ! j)
            (wildcardDigits (pattern config) (number r) ! (j + 1))
            (wildcardDigits (pattern config) (number r) ! (j + 2)))) \<and>
   (missingIndicesOf p = missingIndicesOf q \<longrightarrow> excludedValues excludeSet' = {||} \<longrightarrow>
      (\<lambda>e. wildcardDigits p (number e)) `
        set (generatePhoneNumbers rnd' \<lparr>pattern = p, count = k, contactNamePrefix = a\<rparr>
               options' excludeSet')
      = (\<lambda>e. wildcardDigits q (number e)) `
        set (generatePhoneNumbers rnd' \<lparr>pattern = q, count = k, contactNamePrefix = b\<rparr>
               options' excludeSet')) \<and>
   map number (generatePhoneNumbers (\<lambda>i. 3 * i + 5)
      \<lparr>pattern = ''45________'', count = 1, contactNamePrefix = a'\<rparr> None None)
     = [''4558147036''] \<and>
   ''4558147036'' ! 1 = ''4558147036'' ! 2 \<and>
   map number (generatePhoneNumbers (\<lambda>i. 3 * i + 5)
      \<lparr>pattern = ''34________'', count = 1, contactNamePrefix = a'\<rparr> None None)
     = [''3458147036''] \<and>
   isRun (''3458147036'' ! 0) (''3458147036'' ! 1) (''3458147036'' ! 2)"
proof -
  have A: "densityOf options \<le> 0.55 \<longrightarrow>
    r \<in> set (generatePhoneNumbers rnd config options excludeSet) \<longrightarrow>
      (\<forall>j. j + 1 < length (missingIndicesOf (pattern config)) \<longrightarrow>
         wildcardDigits (pattern config) (number r) ! j
           \<noteq> wildcardDigits (pattern config) (number r) ! (j + 1)) \<and>
      (\<forall>j. j + 2 < length (missingIndicesOf (pattern config)) \<longrightarrow>
         \<not> isRun (wildcardDigits (pattern config) (number r) ! j)
            (wildcardDigits (pattern config) (number r) ! (j + 1))
            (wildcardDigits (pattern config) (number r) ! (j + 2)))"
    using wildcard_order_rules [of options r rnd config excludeSet] by blast
  have B: "missingIndicesOf p = missingIndicesOf q \<longrightarrow> excludedValues excludeSet' = {||} \<longrightarrow>
      (\<lambda>e. wildcardDigits p (number e)) `
        set (generatePhoneNumbers rnd' \<lparr>pattern = p, count = k, contactNamePrefix = a\<rparr>
               options' excludeSet')
      = (\<lambda>e. wildcardDigits q (number e)) `
        set (generatePhoneNumbers rnd' \<lparr>pattern = q, count = k, contactNamePrefix = b\<rparr>
               options' excludeSet')"
  proof (intro impI)
    assume mi: "missingIndicesOf p = missingIndicesOf q" and ex: "excludedValues excludeSet' = {||}"
    have "set (map (\<lambda>e. wildcardDigits p (number e))
        (results (generateRun rnd' \<lparr>pattern = p, count = k, contactNamePrefix = a\<rparr>
           options' excludeSet')))
      = set (map (\<lambda>e. wildcardDigits q (number e))
        (results (generateRun rnd' \<lparr>pattern = q, count = k, contactNamePrefix = b\<rparr>
           options' excludeSet')))"
      by (rule arg_cong [OF generateRun_same_wildcards [OF mi ex]])
    then show "(\<lambda>e. wildcardDigits p (number e)) `
        set (generatePhoneNumbers rnd' \<lparr>pattern = p, count = k, contactNamePrefix = a\<rparr>
               options' excludeSet')
      = (\<lambda>e. wildcardDigits q (number e)) `
        set (generatePhoneNumbers rnd' \<lparr>pattern = q, count = k, contactNamePrefix = b\<rparr>
               options' excludeSet')"
      by (simp only: set_map set_generatePhoneNumbers)
  qed
  have C: "map number (generatePhoneNumbers (\<lambda>i. 3 * i + 5)
      \<lparr>pattern = ''45________'', count = 1, contactNamePrefix = a'\<rparr> None None)
     = [''4558147036'']"
    by code_simp
  have D: "''4558147036'' ! 1 = ''4558147036'' ! 2" by simp
  have E: "map number (generatePhoneNumbers (\<lambda>i. 3 * i + 5)
      \<lparr>pattern = ''34________'', count = 1, contactNamePrefix = a'\<rparr> None None)
     = [''3458147036'']"
    by code_simp
  have F: "isRun (''3458147036'' ! 0) (''3458147036'' ! 1) (''3458147036'' ! 2)"
    by (simp add: isRun_def parseInt_def)
  from A B C D E F show ?thesis by (intro conjI)
qed

theorem C10_wildcards_only_witness:
  "densityOf None \<le> 0.55 \<and>
   generatePhoneNumbers (\<lambda>i. 3 * i + 5)
      \<lparr>pattern = ''4_5_______'', count = 1, contactNamePrefix = ''X''\<rparr> None None
     = [\<lparr>id' = ''1'', number = ''4558147036'', name = ''X'', isSaved = Some False\<rparr>] \<and>
   wildcardDigits ''4_5_______'' ''4558147036'' = ''58147036'' \<and>
   ''58147036'' ! 0 \<noteq> ''58147036'' ! 1 \<and>
   missingIndicesOf ''45________'' = missingIndicesOf ''34________'' \<and>
   (\<lambda>e. wildcardDigits ''45________'' (number e)) `
      set (generatePhoneNumbers (\<lambda>i. 3 * i + 5)
        \<lparr>pattern = ''45________'', count = 1, contactNamePrefix = ''X''\<rparr> None None)
    = (\<lambda>e. wildcardDigits ''34________'' (number e)) `
      set (generatePhoneNumbers (\<lambda>i. 3 * i + 5)
        \<lparr>pattern = ''34________'', count = 1, contactNamePrefix = ''X''\<rparr> None None)"
proof -
  let ?cfg = "\<lparr>pattern = ''4_5_______'', count = 1, contactNamePrefix = ''X''\<rparr>"
  let ?r = "\<lparr>id' = ''1'', number = ''4558147036'', name = ''X'', isSaved = Some False\<rparr>"
  let ?rnd = "\<lambda>i::nat. 3 * i + 5"
  have d: "densityOf None \<le> 0.55" by (simp add: densityOf_def)
  have g: "generatePhoneNumbers ?rnd ?cfg None None = [?r]" by code_simp
  have m: "?r \<in> set (generatePhoneNumbers ?rnd ?cfg None None)" unfolding g by simp
  have w: "wildcardDigits (pattern ?cfg) (number ?r) = ''58147036''" by code_simp
  have l: "0 + 1 < length (missingIndicesOf (pattern ?cfg))" by code_simp
  have mi: "missingIndicesOf ''45________'' = missingIndicesOf ''34________''" by code_simp
  have ex: "excludedValues None = {||}" by (simp add: excludedValues_def)
  note inst = C10_wildcards_only [of None ?r ?rnd ?cfg None "''45________''" "''34________''" None
      ?rnd 1 "''X''" None "''X''" "''X''"]
  have "wildcardDigits (pattern ?cfg) (number ?r) ! 0
      \<noteq> wildcardDigits (pattern ?cfg) (number ?r) ! (0 + 1)"
    using inst d m l by blast
  then have a: "''58147036'' ! 0 \<noteq> ''58147036'' ! 1" unfolding w by simp
  have b: "(\<lambda>e. wildcardDigits ''45________'' (number e)) `
      set (generatePhoneNumbers ?rnd
        \<lparr>pattern = ''45________'', count = 1, contactNamePrefix = ''X''\<rparr> None None)
    = (\<lambda>e. wildcardDigits ''34________'' (number e)) `
      set (generatePhoneNumbers ?rnd
        \<lparr>pattern = ''34________'', count = 1, contactNamePrefix = ''X''\<rparr> None None)"
    using inst mi ex by blast
  have w': "wildcardDigits ''4_5_______'' ''4558147036'' = ''58147036''" using w by simp
  from d g w' a mi b show ?thesis by (intro conjI)
qed

end
